theory Spec2Isabelle
  imports Complex_Main "HOL-Library.Signed_Division"
begin

section \<open>Exact rational arithmetic: class Fraction (fractions.ts)\<close>

text \<open>
  The TypeScript fields \<^verbatim>\<open>numerator\<close> and \<^verbatim>\<open>denominator\<close> have type \<^verbatim>\<open>number\<close>.
  The development is about integer-valued numbers, which are modelled as \<^typ>\<open>int\<close>:
  on integers of magnitude below \<open>2^53\<close> the operators \<^verbatim>\<open>+\<close>, \<^verbatim>\<open>-\<close>, \<^verbatim>\<open>*\<close> and \<^verbatim>\<open>%\<close> are
  exact, \<^verbatim>\<open>a % b\<close> is the remainder that takes the sign of the dividend (\<open>smod\<close>), and
  \<^verbatim>\<open>a / b\<close> is the integer quotient wherever \<open>b\<close> divides \<open>a\<close>, which is the case at every
  division of this class on Fractions with a positive denominator, as the constructor
  makes them (lemmas \<open>Fraction_gcd_dvd\<close>, \<open>Fraction_lcm_dvd\<close>).
\<close>

record Fraction =
  numerator :: int
  denominator :: int

text \<open>
  Both failures of the class are \<^verbatim>\<open>throw new Error(msg)\<close>; reading a property of
  \<^verbatim>\<open>undefined\<close> raises a \<^verbatim>\<open>TypeError\<close>.
\<close>

datatype error = Error string | TypeError

text \<open>A parameter of type \<^verbatim>\<open>Fraction | number\<close>.\<close>

datatype operand = Num int | Frac Fraction

definition bind_err :: "error + 'a \<Rightarrow> ('a \<Rightarrow> error + 'b) \<Rightarrow> error + 'b" where
  "bind_err r f = (case r of Inl e \<Rightarrow> Inl e | Inr x \<Rightarrow> f x)"

text \<open>\<^verbatim>\<open>static gcd(a, b) { return b === 0 ? a : Fraction.gcd(b, a % b); }\<close>\<close>

function Fraction_gcd :: "int \<Rightarrow> int \<Rightarrow> int" where
  "Fraction_gcd a b = (if b = 0 then a else Fraction_gcd b (a smod b))"
  by pat_completeness auto
termination
proof (relation "measure (\<lambda>(a, b). nat \<bar>b\<bar>)")
  show "wf (measure (\<lambda>(a, b). nat \<bar>b\<bar>))" by simp
next
  fix a b :: int
  assume "b \<noteq> 0"
  then have "\<bar>a smod b\<bar> < \<bar>b\<bar>"
    by (simp add: smod_int_alt_def abs_mult abs_sgn_eq)
  then show "((b, a smod b), (a, b)) \<in> measure (\<lambda>(a, b). nat \<bar>b\<bar>)"
    by simp
qed

declare Fraction_gcd.simps [simp del]

text \<open>\<^verbatim>\<open>static lcm(a, b) { return Math.abs(a * b) / Fraction.gcd(a, b); }\<close>\<close>

definition Fraction_lcm :: "int \<Rightarrow> int \<Rightarrow> int" where
  "Fraction_lcm a b = \<bar>a * b\<bar> div Fraction_gcd a b"

text \<open>The constructor; the default value of the second parameter is 1.\<close>

definition Fraction_new :: "int \<Rightarrow> int \<Rightarrow> error + Fraction" where
  "Fraction_new n0 d0 =
     (if d0 = 0 then Inl (Error ''Denominator cannot be zero'')
      else
        let n = (if d0 < 0 then - n0 else n0);
            d = (if d0 < 0 then - d0 else d0)
        in if n = 0 then Inr \<lparr>numerator = 0, denominator = 1\<rparr>
           else
             let g = Fraction_gcd \<bar>n\<bar> \<bar>d\<bar>
             in Inr \<lparr>numerator = n div g, denominator = d div g\<rparr>)"

text \<open>\<^verbatim>\<open>typeof f === "number" ? new Fraction(f) : f\<close>\<close>

definition toFraction :: "operand \<Rightarrow> error + Fraction" where
  "toFraction v = (case v of Num n \<Rightarrow> Fraction_new n 1 | Frac f \<Rightarrow> Inr f)"


definition Fraction_subtract :: "operand \<Rightarrow> operand \<Rightarrow> error + Fraction" where
  "Fraction_subtract f1 f2 =
     bind_err (toFraction f1) (\<lambda>a.
     bind_err (toFraction f2) (\<lambda>b.
       let lcm = Fraction_lcm (denominator a) (denominator b);
           num = numerator a * (lcm div denominator a) - numerator b * (lcm div denominator b)
       in Fraction_new num lcm))"

definition Fraction_multiply :: "operand \<Rightarrow> operand \<Rightarrow> error + Fraction" where
  "Fraction_multiply f1 f2 =
     bind_err (toFraction f1) (\<lambda>a.
     bind_err (toFraction f2) (\<lambda>b.
       Fraction_new (numerator a * numerator b) (denominator a * denominator b)))"

definition Fraction_divide :: "operand \<Rightarrow> operand \<Rightarrow> error + Fraction" where
  "Fraction_divide f1 f2 =
     bind_err (toFraction f1) (\<lambda>a.
     bind_err (toFraction f2) (\<lambda>b.
       if numerator b = 0 then Inl (Error ''Division by zero'')
       else Fraction_new (numerator a * denominator b) (denominator a * numerator b)))"

text \<open>
  \<^verbatim>\<open>toDecimal()\<close> returns the double nearest to the quotient; the model keeps the exact
  quotient. The engine uses the result in two tests only. For components below \<open>2^53\<close>
  the test of \<^verbatim>\<open>isNearZero\<close> against \<^verbatim>\<open>1e-10\<close> has the same outcome on both, since the
  quotient of two such integers is either equal to \<open>1/10^10\<close> or further from it than
  rounding moves it. The comparison of two magnitudes in the pivot search has the same
  outcome on both as long as the cross products of the components stay below \<open>2^52\<close>:
  two different quotients are then further apart than rounding moves them.
\<close>

definition toDecimal :: "Fraction \<Rightarrow> rat" where
  "toDecimal f = of_int (numerator f) / of_int (denominator f)"

definition isZero :: "Fraction \<Rightarrow> bool" where
  "isZero f = (numerator f = 0)"

definition isNearZero :: "Fraction \<Rightarrow> bool" where
  "isNearZero f = (\<bar>toDecimal f\<bar> < 1 / 10 ^ 10)"

definition equals :: "Fraction \<Rightarrow> operand \<Rightarrow> error + bool" where
  "equals this other =
     bind_err (toFraction other) (\<lambda>b.
       Inr (numerator this = numerator b \<and> denominator this = denominator b))"




text \<open>Numbers in template strings: the decimal digits of an integer.\<close>

function show_nat :: "nat \<Rightarrow> string" where
  "show_nat n =
     (if n < 10 then [char_of (48 + n)]
      else show_nat (n div 10) @ [char_of (48 + n mod 10)])"
  by pat_completeness auto
termination
  by (relation "measure id") auto

declare show_nat.simps [simp del]

definition show_int :: "int \<Rightarrow> string" where
  "show_int i = (if i < 0 then ''-'' @ show_nat (nat (- i)) else show_nat (nat i))"

definition toString :: "Fraction \<Rightarrow> string" where
  "toString this =
     (if denominator this = 1 then show_int (numerator this)
      else show_int (numerator this) @ ''/'' @ show_int (denominator this))"

section \<open>Matrices of fractions (fractions.ts)\<close>

type_synonym FractionMatrix = "Fraction list list"

text \<open>
  \<^verbatim>\<open>xs.map(f)\<close> with a callback that may throw: the elements are visited in order and the
  first exception ends the call.
\<close>

fun mapE :: "('a \<Rightarrow> error + 'b) \<Rightarrow> 'a list \<Rightarrow> error + 'b list" where
  "mapE f [] = Inr []"
| "mapE f (x # xs) = bind_err (f x) (\<lambda>y. bind_err (mapE f xs) (\<lambda>ys. Inr (y # ys)))"

definition numberMatrixToFractions :: "int list list \<Rightarrow> error + FractionMatrix" where
  "numberMatrixToFractions matrix = mapE (mapE (\<lambda>val. Fraction_new val 1)) matrix"

definition cloneFractionMatrix :: "FractionMatrix \<Rightarrow> error + FractionMatrix" where
  "cloneFractionMatrix matrix =
     mapE (mapE (\<lambda>f. Fraction_new (numerator f) (denominator f))) matrix"

text \<open>
  Reading \<^verbatim>\<open>m[i][j]\<close> and then using the entry as a Fraction. A row index out of range
  gives \<^verbatim>\<open>undefined[j]\<close>, a column index out of range gives \<^verbatim>\<open>undefined\<close>, whose first
  property access (\<^verbatim>\<open>.toDecimal()\<close>, \<^verbatim>\<open>.numerator\<close>, \<^verbatim>\<open>.denominator\<close>) throws: a TypeError
  both times.
\<close>

definition entry :: "FractionMatrix \<Rightarrow> nat \<Rightarrow> nat \<Rightarrow> error + Fraction" where
  "entry m i j = (if i < length m \<and> j < length (m ! i) then Inr (m ! i ! j) else Inl TypeError)"

text \<open>
  \<^verbatim>\<open>for (let i = lo; i < hi; i++) body\<close>, for a body that changes neither \<open>i\<close> nor \<open>hi\<close>;
  \<^verbatim>\<open>continue\<close> is a body that returns its state unchanged.
\<close>

function for_loop :: "nat \<Rightarrow> nat \<Rightarrow> (nat \<Rightarrow> 's \<Rightarrow> error + 's) \<Rightarrow> 's \<Rightarrow> error + 's" where
  "for_loop i hi body s =
     (if i < hi then (case body i s of Inl e \<Rightarrow> Inl e | Inr s' \<Rightarrow> for_loop (Suc i) hi body s')
      else Inr s)"
  by pat_completeness auto
termination
  by (relation "measure (\<lambda>(i, hi, body, s). hi - i)") auto

declare for_loop.simps [simp del]

section \<open>The elimination engine (fractionElimination.ts)\<close>

record FractionEliminationStep =
  matrix :: FractionMatrix
  operation :: string
  description :: string

record FractionEliminationResult =
  result :: FractionMatrix
  steps :: "FractionEliminationStep list"


definition formatFraction :: "operand \<Rightarrow> error + string" where
  "formatFraction fr = bind_err (toFraction fr) (\<lambda>f. Inr (toString f))"

text \<open>\<^verbatim>\<open>steps.push({ matrix: cloneFractionMatrix(m), operation, description })\<close>\<close>

definition pushStep ::
  "FractionEliminationStep list \<Rightarrow> FractionMatrix \<Rightarrow> string \<Rightarrow> string
     \<Rightarrow> error + FractionEliminationStep list" where
  "pushStep stps m opn desc =
     bind_err (cloneFractionMatrix m) (\<lambda>c.
       Inr (stps @ [\<lparr>matrix = c, operation = opn, description = desc\<rparr>]))"

text \<open>The arrow of the swap label, U+2194, in UTF-8.\<close>

definition swapArrow :: string where
  "swapArrow = [CHR 0xE2, CHR 0x86, CHR 0x94]"

text \<open>
  Partial pivoting, one round of the search loop:
  \<^verbatim>\<open>if (Math.abs(m[row][col].toDecimal()) > Math.abs(m[maxRow][col].toDecimal())) maxRow = row\<close>
\<close>

definition pivotSearch :: "FractionMatrix \<Rightarrow> nat \<Rightarrow> nat \<Rightarrow> nat \<Rightarrow> error + nat" where
  "pivotSearch m col row maxRow =
     bind_err (entry m row col) (\<lambda>x.
     bind_err (entry m maxRow col) (\<lambda>y.
       Inr (if \<bar>toDecimal x\<bar> > \<bar>toDecimal y\<bar> then row else maxRow)))"

text \<open>
  \<^verbatim>\<open>[m[i], m[k]] = [m[k], m[i]]\<close>. At the two places that swap, both indices are below
  \<^verbatim>\<open>m.length\<close>: the pivot search has read both rows (lemma \<open>pivot_search_result\<close>).
\<close>

definition swapRows :: "FractionMatrix \<Rightarrow> nat \<Rightarrow> nat \<Rightarrow> FractionMatrix" where
  "swapRows m i k = (m[i := m ! k])[k := m ! i]"

definition swapStep ::
  "nat \<Rightarrow> nat \<Rightarrow> FractionMatrix \<times> FractionEliminationStep list
     \<Rightarrow> error + FractionMatrix \<times> FractionEliminationStep list" where
  "swapStep i maxRow = (\<lambda>(m, stps).
     if maxRow \<noteq> i then
       let m' = swapRows m i maxRow
       in bind_err (pushStep stps m'
            (''R'' @ show_nat (i + 1) @ '' '' @ swapArrow @ '' R'' @ show_nat (maxRow + 1))
            (''Swap row '' @ show_nat (i + 1) @ '' and row '' @ show_nat (maxRow + 1)
               @ '' (partial pivoting)''))
          (\<lambda>stps'. Inr (m', stps'))
     else Inr (m, stps))"

text \<open>
  One round of the innermost loop of both algorithms,
  \<^verbatim>\<open>m[row][j] = Fraction.subtract(m[row][j], Fraction.multiply(factor, m[p][j]))\<close>.
  Both entries are read before \<^verbatim>\<open>multiply\<close> runs, but a missing entry throws only when
  it is used: \<^verbatim>\<open>m[p][j]\<close> inside \<^verbatim>\<open>multiply\<close>, \<^verbatim>\<open>m[row][j]\<close> inside \<^verbatim>\<open>subtract\<close>.
\<close>

definition combineEntry ::
  "nat \<Rightarrow> nat \<Rightarrow> Fraction \<Rightarrow> nat \<Rightarrow> FractionMatrix \<Rightarrow> error + FractionMatrix" where
  "combineEntry row p factor j m =
     bind_err (entry m p j) (\<lambda>y.
     bind_err (Fraction_multiply (Frac factor) (Frac y)) (\<lambda>product.
     bind_err (entry m row j) (\<lambda>x.
     bind_err (Fraction_subtract (Frac x) (Frac product)) (\<lambda>v.
       Inr (m[row := (m ! row)[j := v]])))))"

subsection \<open>Row-echelon form: gaussianEliminationWithFractions\<close>

text \<open>The body of the loop "Eliminate below pivot".\<close>

definition eliminateBelow ::
  "nat \<Rightarrow> nat \<Rightarrow> nat \<Rightarrow> FractionMatrix \<times> FractionEliminationStep list
     \<Rightarrow> error + FractionMatrix \<times> FractionEliminationStep list" where
  "eliminateBelow cols col row = (\<lambda>(m, stps).
     bind_err (entry m row col) (\<lambda>e.
       if isNearZero e then Inr (m, stps)
       else
         bind_err (entry m col col) (\<lambda>pivot.
         bind_err (Fraction_divide (Frac e) (Frac pivot)) (\<lambda>factor.
         bind_err (formatFraction (Frac factor)) (\<lambda>factorStr.
         bind_err (for_loop col cols (combineEntry row col factor) m) (\<lambda>m'.
         bind_err (pushStep stps m'
             (''R'' @ show_nat (row + 1) @ '' - '' @ factorStr @ ''R'' @ show_nat (col + 1))
             (''Eliminate below pivot: R'' @ show_nat (row + 1) @ '' = R'' @ show_nat (row + 1)
                @ '' - '' @ factorStr @ ''R'' @ show_nat (col + 1)))
           (\<lambda>stps'. Inr (m', stps'))))))))"

text \<open>The body of the loop over the columns.\<close>

definition gaussColumn ::
  "nat \<Rightarrow> nat \<Rightarrow> nat \<Rightarrow> FractionMatrix \<times> FractionEliminationStep list
     \<Rightarrow> error + FractionMatrix \<times> FractionEliminationStep list" where
  "gaussColumn rows cols col = (\<lambda>(m, stps).
     bind_err (for_loop (col + 1) rows (pivotSearch m col) col) (\<lambda>maxRow.
     bind_err (swapStep col maxRow (m, stps)) (\<lambda>(m, stps).
     bind_err (entry m col col) (\<lambda>pivot.
       if isNearZero pivot then Inr (m, stps)
       else for_loop (col + 1) rows (eliminateBelow cols col) (m, stps)))))"

text \<open>
  \<^verbatim>\<open>Math.min(rows, cols - 1)\<close>: for \<^verbatim>\<open>cols = 0\<close> the bound is \<open>-1\<close> and the loop over the
  columns does not run.
\<close>

definition columnBound :: "nat \<Rightarrow> nat \<Rightarrow> nat" where
  "columnBound rows cols = nat (min (int rows) (int cols - 1))"

text \<open>\<^verbatim>\<open>m[0].length\<close> throws a TypeError when \<^verbatim>\<open>m\<close> has no row.\<close>

definition firstRowLength :: "'a list list \<Rightarrow> error + nat" where
  "firstRowLength m = (case m of [] \<Rightarrow> Inl TypeError | r # _ \<Rightarrow> Inr (length r))"

definition gaussianEliminationWithFractions ::
  "operand list list \<Rightarrow> error + FractionEliminationResult" where
  "gaussianEliminationWithFractions augmentedMatrix =
     bind_err (mapE (mapE toFraction) augmentedMatrix) (\<lambda>m.
       let rows = length m in
       bind_err (firstRowLength m) (\<lambda>cols.
       bind_err (pushStep [] m ''Initial'' ''Starting augmented matrix [A|b]'') (\<lambda>stps.
       bind_err (for_loop 0 (columnBound rows cols) (gaussColumn rows cols) (m, stps))
         (\<lambda>(m, stps). Inr \<lparr>result = m, steps = stps\<rparr>))))"


subsection \<open>Reduced row-echelon form: gaussJordanWithFractions\<close>

text \<open>One round of the loop that scales the pivot row.\<close>

definition scaleEntry ::
  "nat \<Rightarrow> Fraction \<Rightarrow> nat \<Rightarrow> FractionMatrix \<Rightarrow> error + FractionMatrix" where
  "scaleEntry currentRow scaleFactor j m =
     bind_err (entry m currentRow j) (\<lambda>x.
     bind_err (Fraction_multiply (Frac scaleFactor) (Frac x)) (\<lambda>v.
       Inr (m[currentRow := (m ! currentRow)[j := v]])))"

text \<open>"Scale pivot row to make pivot = 1".\<close>

definition scalePivotRow ::
  "nat \<Rightarrow> nat \<Rightarrow> nat \<Rightarrow> FractionMatrix \<times> FractionEliminationStep list
     \<Rightarrow> error + FractionMatrix \<times> FractionEliminationStep list" where
  "scalePivotRow cols col currentRow = (\<lambda>(m, stps).
     bind_err (entry m currentRow col) (\<lambda>pivotValue.
     bind_err (Fraction_new 1 1) (\<lambda>one.
     bind_err (equals pivotValue (Frac one)) (\<lambda>isOne.
       if \<not> isOne then
         bind_err (Fraction_divide (Num 1) (Frac pivotValue)) (\<lambda>scaleFactor.
         bind_err (formatFraction (Frac scaleFactor)) (\<lambda>scaleStr.
         bind_err (for_loop 0 cols (scaleEntry currentRow scaleFactor) m) (\<lambda>m'.
         bind_err (pushStep stps m'
             (scaleStr @ ''R'' @ show_nat (currentRow + 1))
             (''Scale row '' @ show_nat (currentRow + 1) @ '' by '' @ scaleStr
                @ '' to make pivot = 1''))
           (\<lambda>stps'. Inr (m', stps')))))
       else Inr (m, stps)))))"

text \<open>The body of the loop "Eliminate above and below pivot".\<close>

definition eliminateOther ::
  "nat \<Rightarrow> nat \<Rightarrow> nat \<Rightarrow> nat \<Rightarrow> FractionMatrix \<times> FractionEliminationStep list
     \<Rightarrow> error + FractionMatrix \<times> FractionEliminationStep list" where
  "eliminateOther cols col currentRow row = (\<lambda>(m, stps).
     if row = currentRow then Inr (m, stps)
     else
       bind_err (entry m row col) (\<lambda>factor.
         if isNearZero factor then Inr (m, stps)
         else
           bind_err (formatFraction (Frac factor)) (\<lambda>factorStr.
           bind_err (for_loop 0 cols (combineEntry row currentRow factor) m) (\<lambda>m'.
           bind_err (pushStep stps m'
               (''R'' @ show_nat (row + 1) @ '' - '' @ factorStr @ ''R''
                  @ show_nat (currentRow + 1))
               (''Eliminate in column '' @ show_nat (col + 1) @ '': R'' @ show_nat (row + 1)
                  @ '' = R'' @ show_nat (row + 1) @ '' - '' @ factorStr @ ''R''
                  @ show_nat (currentRow + 1)))
             (\<lambda>stps'. Inr (m', stps'))))))"

text \<open>
  The body of the loop over the columns, after the \<^verbatim>\<open>break\<close> test. The state is
  \<^verbatim>\<open>currentRow\<close>, the working matrix and the trace.
\<close>

definition jordanColumn ::
  "nat \<Rightarrow> nat \<Rightarrow> nat \<Rightarrow> nat \<times> FractionMatrix \<times> FractionEliminationStep list
     \<Rightarrow> error + nat \<times> FractionMatrix \<times> FractionEliminationStep list" where
  "jordanColumn rows cols col = (\<lambda>(currentRow, m, stps).
     bind_err (for_loop (currentRow + 1) rows (pivotSearch m col) currentRow) (\<lambda>maxRow.
     bind_err (swapStep currentRow maxRow (m, stps)) (\<lambda>(m, stps).
     bind_err (entry m currentRow col) (\<lambda>pivot.
       if isNearZero pivot then Inr (currentRow + 1, m, stps)
       else
         bind_err (scalePivotRow cols col currentRow (m, stps)) (\<lambda>(m, stps).
         bind_err (for_loop 0 rows (eliminateOther cols col currentRow) (m, stps)) (\<lambda>(m, stps).
           Inr (currentRow + 1, m, stps)))))))"

text \<open>
  \<^verbatim>\<open>for (let col = 0; col < Math.min(rows, cols - 1); col++) { if (currentRow >= rows) break; ... }\<close>:
  the increment \<^verbatim>\<open>col++\<close> follows every round that does not break, also one left by
  \<^verbatim>\<open>continue\<close>.
\<close>

function jordanLoop ::
  "nat \<Rightarrow> nat \<Rightarrow> nat \<Rightarrow> nat \<times> FractionMatrix \<times> FractionEliminationStep list
     \<Rightarrow> error + nat \<times> FractionMatrix \<times> FractionEliminationStep list" where
  "jordanLoop rows cols col st =
     (if col < columnBound rows cols then
        if fst st \<ge> rows then Inr st
        else (case jordanColumn rows cols col st of
                Inl e \<Rightarrow> Inl e
              | Inr st' \<Rightarrow> jordanLoop rows cols (Suc col) st')
      else Inr st)"
  by pat_completeness auto
termination
  by (relation "measure (\<lambda>(rows, cols, col, st). columnBound rows cols - col)") auto

declare jordanLoop.simps [simp del]

definition gaussJordanWithFractions ::
  "operand list list \<Rightarrow> error + FractionEliminationResult" where
  "gaussJordanWithFractions augmentedMatrix =
     bind_err (mapE (mapE toFraction) augmentedMatrix) (\<lambda>m.
       let rows = length m in
       bind_err (firstRowLength m) (\<lambda>cols.
       bind_err (pushStep [] m ''Initial'' ''Starting augmented matrix [A|b]'') (\<lambda>stps.
       bind_err (jordanLoop rows cols 0 (0, m, stps))
         (\<lambda>(currentRow, m, stps). Inr \<lparr>result = m, steps = stps\<rparr>))))"

section \<open>Solution extraction\<close>

text \<open>
  \<^verbatim>\<open>refMatrix[i][refMatrix[i].length - 1]\<close>. On an empty row the value is \<^verbatim>\<open>undefined\<close>;
  every path from there reads \<^verbatim>\<open>refMatrix[i][j]\<close> or \<^verbatim>\<open>refMatrix[i][i]\<close> of that empty
  row next and throws a TypeError.
\<close>

definition lastEntry :: "FractionMatrix \<Rightarrow> nat \<Rightarrow> error + Fraction" where
  "lastEntry refMatrix i =
     (if i < length refMatrix \<and> refMatrix ! i \<noteq> [] then Inr (last (refMatrix ! i))
      else Inl TypeError)"

text \<open>\<^verbatim>\<open>sum = Fraction.subtract(sum, Fraction.multiply(refMatrix[i][j], solution[j]))\<close>\<close>

definition backSum ::
  "FractionMatrix \<Rightarrow> Fraction list \<Rightarrow> nat \<Rightarrow> nat \<Rightarrow> Fraction \<Rightarrow> error + Fraction" where
  "backSum refMatrix solution i j acc =
     bind_err (entry refMatrix i j) (\<lambda>a.
     bind_err (Fraction_multiply (Frac a) (Frac (solution ! j))) (\<lambda>product.
       Fraction_subtract (Frac acc) (Frac product)))"

definition backSubstitute ::
  "FractionMatrix \<Rightarrow> nat \<Rightarrow> nat \<Rightarrow> Fraction list \<Rightarrow> error + Fraction list" where
  "backSubstitute refMatrix n i solution =
     bind_err (firstRowLength refMatrix) (\<lambda>cols0.
       if int i < int cols0 - 1 then
         bind_err (lastEntry refMatrix i) (\<lambda>sum0.
         bind_err (for_loop (i + 1) n (backSum refMatrix solution i) sum0) (\<lambda>total.
         bind_err (entry refMatrix i i) (\<lambda>d.
           if \<not> isNearZero d then
             bind_err (Fraction_divide (Frac total) (Frac d)) (\<lambda>v. Inr (solution[i := v]))
           else Inr solution)))
       else Inr solution)"

text \<open>\<^verbatim>\<open>for (let i = n - 1; i >= 0; i--) body\<close>, started as \<open>downLoop n\<close>.\<close>

fun downLoop :: "nat \<Rightarrow> (nat \<Rightarrow> 's \<Rightarrow> error + 's) \<Rightarrow> 's \<Rightarrow> error + 's" where
  "downLoop 0 body s = Inr s"
| "downLoop (Suc i) body s = bind_err (body i s) (downLoop i body)"

definition extractSolutionFromREFFractions :: "FractionMatrix \<Rightarrow> error + Fraction list" where
  "extractSolutionFromREFFractions refMatrix =
     (let n = length refMatrix in
      bind_err (mapE (\<lambda>_. Fraction_new 0 1) (replicate n ())) (\<lambda>solution.
        downLoop n (backSubstitute refMatrix n) solution))"

section \<open>Classification of a system\<close>





section \<open>The elimination engine over an explicit store\<close>

text \<open>
  The functions above compute with matrices as values. JavaScript arrays are objects:
  a matrix is an array of references to row arrays, and an assignment \<^verbatim>\<open>m[i][j] = v\<close> or
  a swap of \<^verbatim>\<open>m[i]\<close> and \<^verbatim>\<open>m[k]\<close> changes an array that every holder of a reference to it
  sees. This section gives the two elimination functions once more with the arrays in a
  store: an address is a position in the list of all arrays allocated so far, and a new
  array goes to the end of that list. Fraction objects are never assigned to after their
  constructor has run, so a row array holds them as values.
\<close>

datatype cell =
    Row "operand list"
  | Rows "nat list"

type_synonym store = "cell list"

text \<open>
  A computation that reads and writes the store and may throw; the store at the moment
  of the throw is kept.
\<close>

type_synonym 'a action = "store \<Rightarrow> (error + 'a) \<times> store"

definition ret :: "'a \<Rightarrow> 'a action" where
  "ret x h = (Inr x, h)"

definition throw :: "error \<Rightarrow> 'a action" where
  "throw e h = (Inl e, h)"

definition lift :: "error + 'a \<Rightarrow> 'a action" where
  "lift r h = (r, h)"

definition bindS :: "'a action \<Rightarrow> ('a \<Rightarrow> 'b action) \<Rightarrow> 'b action" where
  "bindS f g h = (case f h of (Inl e, h') \<Rightarrow> (Inl e, h') | (Inr x, h') \<Rightarrow> g x h')"

text \<open>A new array: \<^verbatim>\<open>map\<close> and array literals allocate.\<close>

definition newArray :: "cell \<Rightarrow> nat action" where
  "newArray c h = (Inr (length h), h @ [c])"

text \<open>
  Dereferencing: the array of rows behind a matrix reference, the entries behind a row
  reference. A reference that does not hold that kind of array cannot arise in the typed
  program; the model answers it with a TypeError.
\<close>

definition rowsAt :: "nat \<Rightarrow> nat list action" where
  "rowsAt a h =
     (if a < length h then (case h ! a of Rows rs \<Rightarrow> (Inr rs, h) | Row es \<Rightarrow> (Inl TypeError, h))
      else (Inl TypeError, h))"

definition rowAt :: "nat \<Rightarrow> operand list action" where
  "rowAt a h =
     (if a < length h then (case h ! a of Row es \<Rightarrow> (Inr es, h) | Rows rs \<Rightarrow> (Inl TypeError, h))
      else (Inl TypeError, h))"

definition setCell :: "nat \<Rightarrow> cell \<Rightarrow> unit action" where
  "setCell a c h = (Inr (), h[a := c])"

fun mapS :: "('a \<Rightarrow> 'b action) \<Rightarrow> 'a list \<Rightarrow> 'b list action" where
  "mapS f [] = ret []"
| "mapS f (x # xs) = bindS (f x) (\<lambda>y. bindS (mapS f xs) (\<lambda>ys. ret (y # ys)))"

function for_loopS :: "nat \<Rightarrow> nat \<Rightarrow> (nat \<Rightarrow> 's \<Rightarrow> 's action) \<Rightarrow> 's \<Rightarrow> 's action" where
  "for_loopS i hi body s h =
     (if i < hi then
        (case body i s h of (Inl e, h') \<Rightarrow> (Inl e, h')
         | (Inr s', h') \<Rightarrow> for_loopS (Suc i) hi body s' h')
      else (Inr s, h))"
  by pat_completeness auto
termination
  by (relation "measure (\<lambda>(i, hi, body, s, h). hi - i)") auto

declare for_loopS.simps [simp del]

text \<open>
  \<^verbatim>\<open>augmentedMatrix.map(row => row.map(val => typeof val === "number" ? new Fraction(val) : val))\<close>:
  a new array of new row arrays. The Fraction objects of the input are shared, the
  arrays are not.
\<close>

definition convertS :: "nat \<Rightarrow> nat action" where
  "convertS augmentedMatrix =
     bindS (rowsAt augmentedMatrix) (\<lambda>rs.
     bindS (mapS (\<lambda>r. bindS (rowAt r) (\<lambda>es.
                       bindS (lift (mapE toFraction es)) (\<lambda>fs.
                         newArray (Row (map Frac fs))))) rs) (\<lambda>addrs.
       newArray (Rows addrs)))"

text \<open>
  \<^verbatim>\<open>matrix.map(row => row.map(f => new Fraction(f.numerator, f.denominator)))\<close>. It is
  only applied to the working matrix, whose rows hold Fractions.
\<close>

definition cloneEntry :: "operand \<Rightarrow> error + Fraction" where
  "cloneEntry v =
     (case v of Frac f \<Rightarrow> Fraction_new (numerator f) (denominator f) | Num n \<Rightarrow> Inl TypeError)"

definition cloneFractionMatrixS :: "nat \<Rightarrow> nat action" where
  "cloneFractionMatrixS m =
     bindS (rowsAt m) (\<lambda>rs.
     bindS (mapS (\<lambda>r. bindS (rowAt r) (\<lambda>es.
                       bindS (lift (mapE cloneEntry es)) (\<lambda>fs.
                         newArray (Row (map Frac fs))))) rs) (\<lambda>addrs.
       newArray (Rows addrs)))"

text \<open>
  A trace entry holds a reference to its snapshot. The trace itself is a local array
  that only \<^verbatim>\<open>push\<close> touches; it is kept as a value.
\<close>

type_synonym stepS = "nat \<times> string \<times> string"

definition pushStepS :: "stepS list \<Rightarrow> nat \<Rightarrow> string \<Rightarrow> string \<Rightarrow> stepS list action" where
  "pushStepS stps m opn desc =
     bindS (cloneFractionMatrixS m) (\<lambda>c. ret (stps @ [(c, opn, desc)]))"

text \<open>Reading \<^verbatim>\<open>m[i][j]\<close> as a Fraction, as \<open>entry\<close> does.\<close>

definition entryS :: "nat \<Rightarrow> nat \<Rightarrow> nat \<Rightarrow> Fraction action" where
  "entryS m i j =
     bindS (rowsAt m) (\<lambda>rs.
       if i < length rs then
         bindS (rowAt (rs ! i)) (\<lambda>es.
           if j < length es then (case es ! j of Frac f \<Rightarrow> ret f | Num n \<Rightarrow> throw TypeError)
           else throw TypeError)
       else throw TypeError)"

text \<open>
  \<^verbatim>\<open>m[i][j] = v\<close>: the row array that \<^verbatim>\<open>m[i]\<close> refers to is changed in place. Every such
  assignment follows a read of the same entry, so \<open>j\<close> is within the row.
\<close>

definition putEntryS :: "nat \<Rightarrow> nat \<Rightarrow> nat \<Rightarrow> Fraction \<Rightarrow> unit action" where
  "putEntryS m i j v =
     bindS (rowsAt m) (\<lambda>rs.
       if i < length rs then
         bindS (rowAt (rs ! i)) (\<lambda>es. setCell (rs ! i) (Row (es[j := Frac v])))
       else throw TypeError)"

text \<open>
  \<^verbatim>\<open>[m[i], m[k]] = [m[k], m[i]]\<close>: the array of rows is changed in place. With an index
  out of range JavaScript would store \<^verbatim>\<open>undefined\<close> as a row, and the snapshot taken
  right after the swap would throw a TypeError on it; the model throws at once.
\<close>

definition swapRowsS :: "nat \<Rightarrow> nat \<Rightarrow> nat \<Rightarrow> unit action" where
  "swapRowsS m i k =
     bindS (rowsAt m) (\<lambda>rs.
       if i < length rs \<and> k < length rs then setCell m (Rows ((rs[i := rs ! k])[k := rs ! i]))
       else throw TypeError)"

definition pivotSearchS :: "nat \<Rightarrow> nat \<Rightarrow> nat \<Rightarrow> nat \<Rightarrow> nat action" where
  "pivotSearchS m col row maxRow =
     bindS (entryS m row col) (\<lambda>x.
     bindS (entryS m maxRow col) (\<lambda>y.
       ret (if \<bar>toDecimal x\<bar> > \<bar>toDecimal y\<bar> then row else maxRow)))"

definition swapStepS :: "nat \<Rightarrow> nat \<Rightarrow> nat \<Rightarrow> stepS list \<Rightarrow> stepS list action" where
  "swapStepS m i maxRow stps =
     (if maxRow \<noteq> i then
        bindS (swapRowsS m i maxRow) (\<lambda>_.
          pushStepS stps m
            (''R'' @ show_nat (i + 1) @ '' '' @ swapArrow @ '' R'' @ show_nat (maxRow + 1))
            (''Swap row '' @ show_nat (i + 1) @ '' and row '' @ show_nat (maxRow + 1)
               @ '' (partial pivoting)''))
      else ret stps)"

definition combineEntryS :: "nat \<Rightarrow> nat \<Rightarrow> nat \<Rightarrow> Fraction \<Rightarrow> nat \<Rightarrow> unit \<Rightarrow> unit action" where
  "combineEntryS m row p factor j u =
     bindS (entryS m p j) (\<lambda>y.
     bindS (lift (Fraction_multiply (Frac factor) (Frac y))) (\<lambda>product.
     bindS (entryS m row j) (\<lambda>x.
     bindS (lift (Fraction_subtract (Frac x) (Frac product))) (\<lambda>v.
       putEntryS m row j v))))"

definition eliminateBelowS ::
  "nat \<Rightarrow> nat \<Rightarrow> nat \<Rightarrow> nat \<Rightarrow> stepS list \<Rightarrow> stepS list action" where
  "eliminateBelowS m cols col row stps =
     bindS (entryS m row col) (\<lambda>e.
       if isNearZero e then ret stps
       else
         bindS (entryS m col col) (\<lambda>pivot.
         bindS (lift (Fraction_divide (Frac e) (Frac pivot))) (\<lambda>factor.
         bindS (lift (formatFraction (Frac factor))) (\<lambda>factorStr.
         bindS (for_loopS col cols (combineEntryS m row col factor) ()) (\<lambda>_.
           pushStepS stps m
             (''R'' @ show_nat (row + 1) @ '' - '' @ factorStr @ ''R'' @ show_nat (col + 1))
             (''Eliminate below pivot: R'' @ show_nat (row + 1) @ '' = R'' @ show_nat (row + 1)
                @ '' - '' @ factorStr @ ''R'' @ show_nat (col + 1)))))))"

definition gaussColumnS :: "nat \<Rightarrow> nat \<Rightarrow> nat \<Rightarrow> nat \<Rightarrow> stepS list \<Rightarrow> stepS list action" where
  "gaussColumnS m rows cols col stps =
     bindS (for_loopS (col + 1) rows (pivotSearchS m col) col) (\<lambda>maxRow.
     bindS (swapStepS m col maxRow stps) (\<lambda>stps.
     bindS (entryS m col col) (\<lambda>pivot.
       if isNearZero pivot then ret stps
       else for_loopS (col + 1) rows (eliminateBelowS m cols col) stps)))"

text \<open>\<^verbatim>\<open>m.length\<close> and \<^verbatim>\<open>m[0].length\<close>.\<close>

definition dimensionsS :: "nat \<Rightarrow> (nat \<times> nat) action" where
  "dimensionsS m =
     bindS (rowsAt m) (\<lambda>rs.
       case rs of [] \<Rightarrow> throw TypeError
       | r # _ \<Rightarrow> bindS (rowAt r) (\<lambda>es. ret (length rs, length es)))"

text \<open>The result is the reference to the working matrix and the trace.\<close>

definition gaussianEliminationWithFractionsS :: "nat \<Rightarrow> (nat \<times> stepS list) action" where
  "gaussianEliminationWithFractionsS augmentedMatrix =
     bindS (convertS augmentedMatrix) (\<lambda>m.
     bindS (dimensionsS m) (\<lambda>(rows, cols).
     bindS (pushStepS [] m ''Initial'' ''Starting augmented matrix [A|b]'') (\<lambda>stps.
     bindS (for_loopS 0 (columnBound rows cols) (gaussColumnS m rows cols) stps) (\<lambda>stps.
       ret (m, stps)))))"

definition scaleEntryS :: "nat \<Rightarrow> nat \<Rightarrow> Fraction \<Rightarrow> nat \<Rightarrow> unit \<Rightarrow> unit action" where
  "scaleEntryS m currentRow scaleFactor j u =
     bindS (entryS m currentRow j) (\<lambda>x.
     bindS (lift (Fraction_multiply (Frac scaleFactor) (Frac x))) (\<lambda>v.
       putEntryS m currentRow j v))"

definition scalePivotRowS ::
  "nat \<Rightarrow> nat \<Rightarrow> nat \<Rightarrow> nat \<Rightarrow> stepS list \<Rightarrow> stepS list action" where
  "scalePivotRowS m cols col currentRow stps =
     bindS (entryS m currentRow col) (\<lambda>pivotValue.
     bindS (lift (Fraction_new 1 1)) (\<lambda>one.
     bindS (lift (equals pivotValue (Frac one))) (\<lambda>isOne.
       if \<not> isOne then
         bindS (lift (Fraction_divide (Num 1) (Frac pivotValue))) (\<lambda>scaleFactor.
         bindS (lift (formatFraction (Frac scaleFactor))) (\<lambda>scaleStr.
         bindS (for_loopS 0 cols (scaleEntryS m currentRow scaleFactor) ()) (\<lambda>_.
           pushStepS stps m
             (scaleStr @ ''R'' @ show_nat (currentRow + 1))
             (''Scale row '' @ show_nat (currentRow + 1) @ '' by '' @ scaleStr
                @ '' to make pivot = 1''))))
       else ret stps)))"

definition eliminateOtherS ::
  "nat \<Rightarrow> nat \<Rightarrow> nat \<Rightarrow> nat \<Rightarrow> nat \<Rightarrow> stepS list \<Rightarrow> stepS list action" where
  "eliminateOtherS m cols col currentRow row stps =
     (if row = currentRow then ret stps
      else
        bindS (entryS m row col) (\<lambda>factor.
          if isNearZero factor then ret stps
          else
            bindS (lift (formatFraction (Frac factor))) (\<lambda>factorStr.
            bindS (for_loopS 0 cols (combineEntryS m row currentRow factor) ()) (\<lambda>_.
              pushStepS stps m
                (''R'' @ show_nat (row + 1) @ '' - '' @ factorStr @ ''R''
                   @ show_nat (currentRow + 1))
                (''Eliminate in column '' @ show_nat (col + 1) @ '': R'' @ show_nat (row + 1)
                   @ '' = R'' @ show_nat (row + 1) @ '' - '' @ factorStr @ ''R''
                   @ show_nat (currentRow + 1))))))"

definition jordanColumnS ::
  "nat \<Rightarrow> nat \<Rightarrow> nat \<Rightarrow> nat \<Rightarrow> nat \<times> stepS list \<Rightarrow> (nat \<times> stepS list) action" where
  "jordanColumnS m rows cols col = (\<lambda>(currentRow, stps).
     bindS (for_loopS (currentRow + 1) rows (pivotSearchS m col) currentRow) (\<lambda>maxRow.
     bindS (swapStepS m currentRow maxRow stps) (\<lambda>stps.
     bindS (entryS m currentRow col) (\<lambda>pivot.
       if isNearZero pivot then ret (currentRow + 1, stps)
       else
         bindS (scalePivotRowS m cols col currentRow stps) (\<lambda>stps.
         bindS (for_loopS 0 rows (eliminateOtherS m cols col currentRow) stps) (\<lambda>stps.
           ret (currentRow + 1, stps)))))))"

function jordanLoopS ::
  "nat \<Rightarrow> nat \<Rightarrow> nat \<Rightarrow> nat \<Rightarrow> nat \<times> stepS list \<Rightarrow> (nat \<times> stepS list) action" where
  "jordanLoopS m rows cols col st h =
     (if col < columnBound rows cols then
        if fst st \<ge> rows then (Inr st, h)
        else (case jordanColumnS m rows cols col st h of
                (Inl e, h') \<Rightarrow> (Inl e, h')
              | (Inr st', h') \<Rightarrow> jordanLoopS m rows cols (Suc col) st' h')
      else (Inr st, h))"
  by pat_completeness auto
termination
  by (relation "measure (\<lambda>(m, rows, cols, col, st, h). columnBound rows cols - col)") auto

declare jordanLoopS.simps [simp del]

definition gaussJordanWithFractionsS :: "nat \<Rightarrow> (nat \<times> stepS list) action" where
  "gaussJordanWithFractionsS augmentedMatrix =
     bindS (convertS augmentedMatrix) (\<lambda>m.
     bindS (dimensionsS m) (\<lambda>(rows, cols).
     bindS (pushStepS [] m ''Initial'' ''Starting augmented matrix [A|b]'') (\<lambda>stps.
     bindS (jordanLoopS m rows cols 0 (0, stps)) (\<lambda>(currentRow, stps).
       ret (m, stps)))))"

text \<open>
  The matrix behind a reference, read out of the store: its rows in order, each with its
  entries; nothing when the reference or one of its rows does not hold such an array.
\<close>

definition readRow :: "store \<Rightarrow> nat \<Rightarrow> operand list option" where
  "readRow h r = (if r < length h then (case h ! r of Row es \<Rightarrow> Some es | Rows rs \<Rightarrow> None) else None)"

fun those_rows :: "operand list option list \<Rightarrow> operand list list option" where
  "those_rows [] = Some []"
| "those_rows (x # xs) =
     (case x of None \<Rightarrow> None
      | Some es \<Rightarrow> (case those_rows xs of None \<Rightarrow> None | Some rest \<Rightarrow> Some (es # rest)))"

definition readMatrix :: "store \<Rightarrow> nat \<Rightarrow> operand list list option" where
  "readMatrix h a =
     (if a < length h then
        (case h ! a of Rows rs \<Rightarrow> those_rows (map (readRow h) rs) | Row es \<Rightarrow> None)
      else None)"

text \<open>
  The invariant of the frame property: \<open>m\<close>, the working matrix, was allocated by the
  call, and so was every row array it refers to.
\<close>

definition fresh :: "nat \<Rightarrow> nat \<Rightarrow> store \<Rightarrow> bool" where
  "fresh n m h =
     (n \<le> m \<and> m < length h \<and> (\<forall>rs. h ! m = Rows rs \<longrightarrow> (\<forall>r\<in>set rs. n \<le> r)))"

definition frames :: "nat \<Rightarrow> nat \<Rightarrow> 'a action \<Rightarrow> bool" where
  "frames n m f =
     (\<forall>h. fresh n m h \<longrightarrow> fresh n m (snd (f h)) \<and> take n (snd (f h)) = take n h)"

section \<open>Notions of the specification\<close>

text \<open>
  Canonical form: the denominator is positive, and either the numerator is 0 and the
  denominator 1, or numerator and denominator have no common divisor.
\<close>

definition canonical :: "Fraction \<Rightarrow> bool" where
  "canonical f = (denominator f > 0 \<and>
     ((numerator f = 0 \<and> denominator f = 1) \<or> gcd \<bar>numerator f\<bar> (denominator f) = 1))"

text \<open>The rational number a fraction stands for, and the canonical fraction of a rational.\<close>

definition rat_of :: "Fraction \<Rightarrow> rat" where
  "rat_of f = Fract (numerator f) (denominator f)"

definition canon :: "rat \<Rightarrow> Fraction" where
  "canon q = \<lparr>numerator = fst (quotient_of q), denominator = snd (quotient_of q)\<rparr>"

text \<open>
  An operand as a caller can pass it: an integer, or a Fraction object, which only the
  constructor makes.
\<close>

fun valid :: "operand \<Rightarrow> bool" where
  "valid (Num n) = True"
| "valid (Frac f) = canonical f"

fun val :: "operand \<Rightarrow> rat" where
  "val (Num n) = of_int n"
| "val (Frac f) = rat_of f"




text \<open>
  The classifier in the words of the specification: the number of columns is the length
  of the first row; \<open>rankA\<close> counts the rows with a non-near-zero entry among the
  non-last columns, \<open>rankAugmented\<close> the rows with a non-near-zero entry anywhere.
\<close>

definition columnCount :: "'a list list \<Rightarrow> nat" where
  "columnCount mat = (case mat of [] \<Rightarrow> 0 | r # _ \<Rightarrow> length r)"

definition rectangular :: "'a list list \<Rightarrow> bool" where
  "rectangular mat = list_all (\<lambda>r. length r = columnCount mat) mat"






text \<open>
  Inputs of the elimination functions: every entry is an integer or a Fraction in
  canonical form. \<open>inputMatrix\<close> is the input with each integer \<open>n\<close> read as \<open>n/1\<close>.
\<close>

definition validInput :: "operand list list \<Rightarrow> bool" where
  "validInput A = list_all (list_all valid) A"

definition canonicalMatrix :: "FractionMatrix \<Rightarrow> bool" where
  "canonicalMatrix m = list_all (list_all canonical) m"

fun fractionOf :: "operand \<Rightarrow> Fraction" where
  "fractionOf (Num n) = \<lparr>numerator = n, denominator = 1\<rparr>"
| "fractionOf (Frac f) = f"

definition inputMatrix :: "operand list list \<Rightarrow> FractionMatrix" where
  "inputMatrix A = map (map fractionOf) A"

text \<open>\<open>rows\<close> rows of \<open>cols\<close> entries each.\<close>

definition rect :: "nat \<Rightarrow> nat \<Rightarrow> 'a list list \<Rightarrow> bool" where
  "rect rows cols m = (length m = rows \<and> list_all (\<lambda>r. length r = cols) m)"






text \<open>
  Row-echelon form: the leading nonzero entry of each row is strictly to the right of the
  leading entry of the row above, so that rows without a leading entry come last.
  Reduced row-echelon form: moreover every leading entry is 1 and is the only nonzero
  entry of its column.
\<close>

fun leading :: "Fraction list \<Rightarrow> nat option" where
  "leading [] = None"
| "leading (x # xs) = (if isZero x then map_option Suc (leading xs) else Some 0)"

fun echelon :: "nat option list \<Rightarrow> bool" where
  "echelon (a # b # rest) =
     ((case b of None \<Rightarrow> True
       | Some j \<Rightarrow> (case a of None \<Rightarrow> False | Some i \<Rightarrow> i < j)) \<and>
      echelon (b # rest))"
| "echelon [a] = True"
| "echelon [] = True"

definition rowEchelon :: "FractionMatrix \<Rightarrow> bool" where
  "rowEchelon m = echelon (map leading m)"

definition reducedRowEchelon :: "FractionMatrix \<Rightarrow> bool" where
  "reducedRowEchelon m =
     (rowEchelon m \<and>
      list_all (\<lambda>i. case leading (m ! i) of
                   None \<Rightarrow> True
                 | Some j \<Rightarrow> m ! i ! j = \<lparr>numerator = 1, denominator = 1\<rparr> \<and>
                     list_all (\<lambda>k. k = i \<or> isZero (m ! k ! j)) [0..<length m])
        [0..<length m])"

text \<open>
  How the store holds what the value-level functions compute with. The arrays of the
  working matrix lie below an address \<open>n\<close>: the array of rows at \<open>m\<close> refers to distinct
  row arrays, and row \<open>i\<close> holds the Fractions of \<open>M ! i\<close>. A snapshot lies at or above
  \<open>n\<close>, with all its rows.
\<close>

definition holds :: "nat \<Rightarrow> store \<Rightarrow> nat \<Rightarrow> FractionMatrix \<Rightarrow> bool" where
  "holds n h m M =
     (m < n \<and> n \<le> length h \<and>
      (\<exists>rs. h ! m = Rows rs \<and> length rs = length M \<and> distinct rs \<and> m \<notin> set rs \<and>
         (\<forall>i<length M. rs ! i < n \<and> h ! (rs ! i) = Row (map Frac (M ! i)))))"

definition snapshot :: "nat \<Rightarrow> store \<Rightarrow> nat \<Rightarrow> FractionMatrix \<Rightarrow> bool" where
  "snapshot n h c S =
     (n \<le> c \<and> c < length h \<and>
      (\<exists>rs. h ! c = Rows rs \<and> length rs = length S \<and>
         (\<forall>i<length S. n \<le> rs ! i \<and> rs ! i < length h \<and> h ! (rs ! i) = Row (map Frac (S ! i)))))"

definition traceOf ::
  "nat \<Rightarrow> store \<Rightarrow> stepS list \<Rightarrow> FractionEliminationStep list \<Rightarrow> bool" where
  "traceOf n h stps T =
     list_all2 (\<lambda>(c, opn, desc) s.
        snapshot n h c (matrix s) \<and> opn = operation s \<and> desc = description s) stps T"

text \<open>
  The outcome \<open>r\<close> of a store-level computation agrees with the outcome \<open>q\<close> of the
  value-level one: the same exception, or results that \<open>P\<close> relates.
\<close>

definition agrees :: "error + 'a \<Rightarrow> error + 'b \<Rightarrow> ('a \<Rightarrow> 'b \<Rightarrow> bool) \<Rightarrow> bool" where
  "agrees r q P = (case q of Inl e \<Rightarrow> r = Inl e | Inr y \<Rightarrow> (\<exists>x. r = Inr x \<and> P x y))"

section \<open>Properties of the Fraction class\<close>

subsection \<open>The divisions of the class are exact\<close>

lemma Fraction_gcd_eq: "0 \<le> a \<Longrightarrow> 0 \<le> b \<Longrightarrow> Fraction_gcd a b = gcd a b"
proof (induction a b rule: Fraction_gcd.induct)
  case (1 a b)
  show ?case
  proof (cases "b = 0")
    case True
    with 1 show ?thesis by (simp add: Fraction_gcd.simps)
  next
    case False
    with 1 have sm: "a smod b = a mod b"
      by (simp add: smod_int_alt_def sgn_if)
    from False 1 have "Fraction_gcd b (a smod b) = gcd b (a smod b)"
      by (simp add: sm)
    with False sm show ?thesis
      using gcd_red_int [of a b] by (subst Fraction_gcd.simps) simp
  qed
qed

lemma Fraction_gcd_dvd:
  "Fraction_gcd \<bar>n\<bar> \<bar>d\<bar> dvd n \<and> Fraction_gcd \<bar>n\<bar> \<bar>d\<bar> dvd d"
  by (simp add: Fraction_gcd_eq)

lemma Fraction_lcm_eq: "0 < a \<Longrightarrow> 0 < b \<Longrightarrow> Fraction_lcm a b = lcm a b"
proof -
  assume ab: "0 < a" "0 < b"
  then have "0 < gcd a b" by simp
  moreover from ab have "0 \<le> a * b" by simp
  ultimately have "0 \<le> a * b div gcd a b"
    by (simp add: pos_imp_zdiv_nonneg_iff)
  with ab show ?thesis
    by (simp add: Fraction_lcm_def Fraction_gcd_eq lcm_gcd)
qed

lemma Fraction_lcm_dvd:
  "0 < a \<Longrightarrow> 0 < b \<Longrightarrow>
     Fraction_gcd a b dvd \<bar>a * b\<bar> \<and> a dvd Fraction_lcm a b \<and> b dvd Fraction_lcm a b"
  by (simp add: Fraction_lcm_eq Fraction_gcd_eq)

subsection \<open>The constructor computes the canonical form\<close>



lemma canon_rat_of: "canonical f \<Longrightarrow> canon (rat_of f) = f"
  by (auto simp: canonical_def rat_of_def canon_def quotient_of_Fract Rat.normalize_def Let_def
      rat_number_collapse)

lemma canonical_eqI: "canonical f \<Longrightarrow> canonical g \<Longrightarrow> rat_of f = rat_of g \<Longrightarrow> f = g"
  by (metis canon_rat_of)

lemma Fraction_new_canon: "d \<noteq> 0 \<Longrightarrow> Fraction_new n d = Inr (canon (Fract n d))"
  by (auto simp: Fraction_new_def canon_def quotient_of_Fract Rat.normalize_def Let_def
      Fraction_gcd_eq dvd_neg_div dvd_div_neg)


lemma Fraction_new_self: "canonical f \<Longrightarrow> Fraction_new (numerator f) (denominator f) = Inr f"
  using canon_rat_of [of f] by (simp add: Fraction_new_canon canonical_def rat_of_def)


lemma toFraction_valid: "valid v \<Longrightarrow> toFraction v = Inr (canon (val v))"
  by (cases v) (simp_all add: toFraction_def Fraction_new_canon canon_rat_of Fract_of_int_eq)





subsection \<open>The arithmetic operations compute in the rationals\<close>














subsection \<open>Canonical form, division by zero, round trips\<close>








section \<open>The system classifier\<close>







section \<open>An end-to-end run\<close>

text \<open>
  Claim C4. Row-echelon reduction of \<open>[[2,1,3,1],[3,2,1,4],[1,-1,2,3]]\<close> followed by back
  substitution returns the vector \<open>(3, -2, -1)\<close> of exact fractions, and these satisfy the
  three equations \<open>2 x1 + x2 + 3 x3 = 1\<close>, \<open>3 x1 + 2 x2 + x3 = 4\<close> and \<open>x1 - x2 + 2 x3 = 3\<close> in
  exact rational arithmetic.
\<close>

theorem end_to_end_elimination:
  "\<exists>r x1 x2 x3.
     gaussianEliminationWithFractions
       (map (map Num) [[2, 1, 3, 1], [3, 2, 1, 4], [1, - 1, 2, 3]]) = Inr r \<and>
     extractSolutionFromREFFractions (result r) = Inr [x1, x2, x3] \<and>
     2 * rat_of x1 + 1 * rat_of x2 + 3 * rat_of x3 = 1 \<and>
     3 * rat_of x1 + 2 * rat_of x2 + 1 * rat_of x3 = 4 \<and>
     1 * rat_of x1 - 1 * rat_of x2 + 2 * rat_of x3 = 3 \<and>
     x1 = \<lparr>numerator = 3, denominator = 1\<rparr> \<and>
     x2 = \<lparr>numerator = - 2, denominator = 1\<rparr> \<and>
     x3 = \<lparr>numerator = - 1, denominator = 1\<rparr>"
proof -
  have run: "bind_err
      (gaussianEliminationWithFractions
        (map (map Num) [[2, 1, 3, 1], [3, 2, 1, 4], [1, - 1, 2, 3]]))
      (\<lambda>r. extractSolutionFromREFFractions (result r))
    = Inr [\<lparr>numerator = 3, denominator = 1\<rparr>, \<lparr>numerator = - 2, denominator = 1\<rparr>,
           \<lparr>numerator = - 1, denominator = 1\<rparr>]"
    by code_simp
  then obtain r where r:
    "gaussianEliminationWithFractions
       (map (map Num) [[2, 1, 3, 1], [3, 2, 1, 4], [1, - 1, 2, 3]]) = Inr r"
    "extractSolutionFromREFFractions (result r)
       = Inr [\<lparr>numerator = 3, denominator = 1\<rparr>, \<lparr>numerator = - 2, denominator = 1\<rparr>,
              \<lparr>numerator = - 1, denominator = 1\<rparr>]"
    by (auto simp: bind_err_def split: sum.splits)
  have eqs: "2 * rat_of \<lparr>numerator = 3, denominator = 1\<rparr>
        + 1 * rat_of \<lparr>numerator = - 2, denominator = 1\<rparr>
        + 3 * rat_of \<lparr>numerator = - 1, denominator = 1\<rparr> = 1"
    "3 * rat_of \<lparr>numerator = 3, denominator = 1\<rparr>
        + 2 * rat_of \<lparr>numerator = - 2, denominator = 1\<rparr>
        + 1 * rat_of \<lparr>numerator = - 1, denominator = 1\<rparr> = 4"
    "1 * rat_of \<lparr>numerator = 3, denominator = 1\<rparr>
        - 1 * rat_of \<lparr>numerator = - 2, denominator = 1\<rparr>
        + 2 * rat_of \<lparr>numerator = - 1, denominator = 1\<rparr> = 3"
    by (simp_all add: rat_of_def rat_number_collapse Fract_of_int_eq)
  from r eqs show ?thesis by blast
qed

section \<open>The row cursor of Gauss-Jordan elimination\<close>




section \<open>Properties of the elimination engine\<close>

subsection \<open>Loops and the error monad\<close>


lemma bind_err_Inr_iff: "bind_err r f = Inr y \<longleftrightarrow> (\<exists>x. r = Inr x \<and> f x = Inr y)"
  by (cases r) (simp_all add: bind_err_def)

lemma bind_err_Inr [simp]: "bind_err (Inr x) f = f x"
  by (simp add: bind_err_def)

lemma bind_err_Inl [simp]: "bind_err (Inl e) f = Inl e"
  by (simp add: bind_err_def)

lemma for_loop_rule:
  assumes "for_loop i hi body s = Inr s'"
    and "P i s"
    and "\<And>k t t'. i \<le> k \<Longrightarrow> k < hi \<Longrightarrow> P k t \<Longrightarrow> body k t = Inr t' \<Longrightarrow> P (Suc k) t'"
  shows "P (max i hi) s'"
  using assms
proof (induction i hi body s rule: for_loop.induct)
  case (1 i hi body s)
  show ?case
  proof (cases "i < hi")
    case False
    with "1.prems"(1,2) show ?thesis
      by (simp add: for_loop.simps [of i hi] max_def)
  next
    case True
    with "1.prems"(1) obtain t where t: "body i s = Inr t" "for_loop (Suc i) hi body t = Inr s'"
      by (auto simp: for_loop.simps [of i hi] split: sum.splits)
    from "1.prems"(3) [OF _ True "1.prems"(2) t(1)] have "P (Suc i) t" by simp
    with "1.IH" [OF True t(1) t(2)] "1.prems"(3) have "P (max (Suc i) hi) s'"
      by simp
    with True show ?thesis by (simp add: max_def)
  qed
qed

lemma for_loop_total:
  assumes "P i s"
    and "\<And>k t. i \<le> k \<Longrightarrow> k < hi \<Longrightarrow> P k t \<Longrightarrow> \<exists>t'. body k t = Inr t' \<and> P (Suc k) t'"
  shows "\<exists>s'. for_loop i hi body s = Inr s' \<and> P (max i hi) s'"
  using assms
proof (induction i hi body s rule: for_loop.induct)
  case (1 i hi body s)
  show ?case
  proof (cases "i < hi")
    case False
    with "1.prems"(1) show ?thesis
      by (simp add: for_loop.simps [of i hi] max_def)
  next
    case True
    from "1.prems"(2) [OF _ True "1.prems"(1)] obtain t where t: "body i s = Inr t" "P (Suc i) t"
      by auto
    from "1.IH" [OF True t(1) t(2)] "1.prems"(2)
    obtain s' where "for_loop (Suc i) hi body t = Inr s'" "P (max (Suc i) hi) s'"
      by auto
    with True t(1) show ?thesis
      by (simp add: for_loop.simps [of i hi] max_def)
  qed
qed





lemma mapE_Inr: "(\<And>x. x \<in> set xs \<Longrightarrow> f x = Inr (g x)) \<Longrightarrow> mapE f xs = Inr (map g xs)"
  by (induction xs) simp_all

lemma canon_of_int: "canon (of_int n) = \<lparr>numerator = n, denominator = 1\<rparr>"
  by (simp add: canon_def)

lemma toFraction_fractionOf: "valid v \<Longrightarrow> toFraction v = Inr (fractionOf v)"
  by (cases v) (simp_all add: toFraction_valid canon_of_int canon_rat_of)

lemma canonical_fractionOf: "valid v \<Longrightarrow> canonical (fractionOf v)"
  by (cases v) (simp_all add: canonical_def)

lemma convert_input:
  "validInput A \<Longrightarrow> mapE (mapE toFraction) A = Inr (inputMatrix A)"
  unfolding inputMatrix_def
  by (intro mapE_Inr) (auto simp: validInput_def list_all_iff toFraction_fractionOf)

lemma canonical_inputMatrix: "validInput A \<Longrightarrow> canonicalMatrix (inputMatrix A)"
  by (auto simp: validInput_def canonicalMatrix_def inputMatrix_def list_all_iff canonical_fractionOf)

lemma clone_canonical: "canonicalMatrix m \<Longrightarrow> cloneFractionMatrix m = Inr m"
proof -
  assume c: "canonicalMatrix m"
  have "mapE (mapE (\<lambda>f. Fraction_new (numerator f) (denominator f))) m = Inr (map (map id) m)"
    using c by (intro mapE_Inr) (auto simp: canonicalMatrix_def list_all_iff Fraction_new_self)
  then show ?thesis by (simp add: cloneFractionMatrix_def)
qed

lemma pushStep_canonical:
  "canonicalMatrix m \<Longrightarrow>
     pushStep stps m opn desc = Inr (stps @ [\<lparr>matrix = m, operation = opn, description = desc\<rparr>])"
  by (simp add: pushStep_def clone_canonical)



lemma entry_Inr_iff: "entry m i j = Inr x \<longleftrightarrow> i < length m \<and> j < length (m ! i) \<and> x = m ! i ! j"
  by (auto simp: entry_def)















lemma rect_nth: "rect rows cols m \<Longrightarrow> i < rows \<Longrightarrow> length (m ! i) = cols"
  by (simp add: rect_def list_all_length)

lemma rect_length: "rect rows cols m \<Longrightarrow> length m = rows"
  by (simp add: rect_def)



lemma pivot_search_result:
  assumes "for_loop (Suc i) rows (pivotSearch m col) i = Inr mr"
  shows "mr = i \<or> (i < mr \<and> mr < rows \<and> mr < length m \<and> i < length m \<and>
           col < length (m ! mr) \<and> col < length (m ! i) \<and>
           \<bar>toDecimal (m ! mr ! col)\<bar> > \<bar>toDecimal (m ! i ! col)\<bar>)"
proof -
  let ?P = "\<lambda>k r. r = i \<or> (i < r \<and> r < k \<and> r < length m \<and> i < length m \<and>
           col < length (m ! r) \<and> col < length (m ! i) \<and>
           \<bar>toDecimal (m ! r ! col)\<bar> > \<bar>toDecimal (m ! i ! col)\<bar>)"
  have "?P (max (Suc i) rows) mr"
  proof (rule for_loop_rule [where P = ?P, OF assms])
    show "?P (Suc i) i" by simp
  next
    fix k t t'
    assume k: "Suc i \<le> k" "k < rows" and P: "?P k t" and b: "pivotSearch m col k t = Inr t'"
    from b obtain x y where xy: "entry m k col = Inr x" "entry m t col = Inr y"
      and t': "t' = (if \<bar>toDecimal x\<bar> > \<bar>toDecimal y\<bar> then k else t)"
      by (auto simp: pivotSearch_def bind_err_Inr_iff)
    show "?P (Suc k) t'"
    proof (cases "\<bar>toDecimal x\<bar> > \<bar>toDecimal y\<bar>")
      case False
      with t' P show ?thesis by auto
    next
      case True
      from P xy have "\<bar>toDecimal y\<bar> \<ge> \<bar>toDecimal (m ! i ! col)\<bar> \<and> i < length m \<and> col < length (m ! i)"
        by (auto simp: entry_Inr_iff)
      with True t' xy k show ?thesis
        by (auto simp: entry_Inr_iff)
    qed
  qed
  then show ?thesis by (auto simp: max_def split: if_splits)
qed





lemma swapStep_same: "swapStep i i s = Inr s"
  by (cases s) (simp add: swapStep_def)




lemma formatFraction_Frac: "formatFraction (Frac f) = Inr (toString f)"
  by (simp add: formatFraction_def toFraction_def)













lemma columnBound_less: "col < columnBound rows cols \<Longrightarrow> col < rows \<and> Suc col < cols"
  by (auto simp: columnBound_def)






lemma Fraction_new_one: "Fraction_new 1 1 = Inr \<lparr>numerator = 1, denominator = 1\<rparr>"
  by code_simp

lemma equals_one:
  "equals pv (Frac \<lparr>numerator = 1, denominator = 1\<rparr>) = Inr (pv = \<lparr>numerator = 1, denominator = 1\<rparr>)"
  by (cases pv) (simp add: equals_def toFraction_def)
















lemma firstRowLength_Inr: "firstRowLength m = Inr c \<longleftrightarrow> m \<noteq> [] \<and> c = length (hd m)"
  by (cases m) (auto simp: firstRowLength_def)




lemma map_length_inputMatrix: "map length (inputMatrix A) = map length A"
  by (simp add: inputMatrix_def)


lemma rectangular_rect: "rectangular A \<Longrightarrow> rect (length A) (columnCount A) A"
  by (simp add: rectangular_def rect_def)

lemma rect_inputMatrix: "rect R C A \<Longrightarrow> rect R C (inputMatrix A)"
  by (simp add: rect_def inputMatrix_def list_all_iff)

lemma columnCount_hd: "A \<noteq> [] \<Longrightarrow> length (hd (inputMatrix A)) = columnCount A"
  by (cases A) (simp_all add: inputMatrix_def columnCount_def)





subsection \<open>Matrices in reduced row-echelon form\<close>


lemma leading_Some:
  "leading row = Some j \<Longrightarrow> j < length row \<and> \<not> isZero (row ! j) \<and> (\<forall>k<j. isZero (row ! k))"
proof (induction row arbitrary: j)
  case Nil
  then show ?case by simp
next
  case (Cons x xs)
  show ?case
  proof (cases "isZero x")
    case False
    with Cons.prems show ?thesis by simp
  next
    case True
    with Cons.prems obtain j' where j': "leading xs = Some j'" "j = Suc j'"
      by auto
    from Cons.IH [OF j'(1)] True j'(2) show ?thesis
      by (auto simp: nth_Cons split: nat.splits)
  qed
qed

lemma leading_None: "leading row = None \<Longrightarrow> k < length row \<Longrightarrow> isZero (row ! k)"
proof (induction row arbitrary: k)
  case Nil
  then show ?case by simp
next
  case (Cons x xs)
  then show ?case
    by (cases "isZero x") (auto simp: nth_Cons split: nat.splits)
qed

lemma echelon_Suc:
  "echelon ls \<Longrightarrow> Suc i < length ls \<Longrightarrow> ls ! Suc i = Some j \<Longrightarrow> \<exists>j'. ls ! i = Some j' \<and> j' < j"
proof (induction ls arbitrary: i rule: echelon.induct)
  case (1 a b rest)
  show ?case
  proof (cases i)
    case 0
    with "1.prems" show ?thesis by (auto split: option.splits)
  next
    case (Suc i')
    with "1.prems" "1.IH" [of i'] show ?thesis by simp
  qed
qed simp_all

lemma echelon_diagonal:
  "echelon ls \<Longrightarrow> i < length ls \<Longrightarrow> ls ! i = Some j \<Longrightarrow> i \<le> j"
proof (induction i arbitrary: j)
  case 0
  then show ?case by simp
next
  case (Suc i)
  from echelon_Suc [OF Suc.prems] obtain j' where "ls ! i = Some j'" "j' < j" by blast
  with Suc.IH [of j'] Suc.prems show ?case by simp
qed

lemma echelon_below:
  "echelon ls \<Longrightarrow> r < length ls \<Longrightarrow> c < r \<Longrightarrow> ls ! r = Some j \<Longrightarrow> \<exists>j'. ls ! c = Some j' \<and> j' < j"
proof (induction r arbitrary: j)
  case 0
  then show ?case by simp
next
  case (Suc r)
  from echelon_Suc [OF Suc.prems(1,2,4)] obtain j1 where j1: "ls ! r = Some j1" "j1 < j" by blast
  show ?case
  proof (cases "c = r")
    case True
    with j1 show ?thesis by blast
  next
    case False
    with Suc.prems have "c < r" by simp
    from Suc.IH [OF Suc.prems(1) _ this j1(1)] Suc.prems(2) j1(2) show ?thesis by auto
  qed
qed

lemma isZero_toDecimal: "isZero x \<Longrightarrow> toDecimal x = 0"
  by (simp add: isZero_def toDecimal_def)

lemma isZero_isNearZero: "isZero x \<Longrightarrow> isNearZero x"
  by (simp add: isNearZero_def isZero_toDecimal)

text \<open>In row-echelon form the entries below the diagonal are zero.\<close>

lemma rowEchelon_below_diagonal:
  assumes "rowEchelon m" "rect rows cols m" "c < r" "r < rows" "c < cols"
  shows "isZero (m ! r ! c)"
proof (cases "leading (m ! r)")
  case None
  with assms show ?thesis
    using rect_nth [of rows cols m r] by (auto intro: leading_None)
next
  case (Some j)
  from assms have len: "length m = rows" by (simp add: rect_length)
  from assms(1) have e: "echelon (map leading m)" by (simp add: rowEchelon_def)
  from echelon_diagonal [OF e, of r j] Some assms(4) len have "r \<le> j" by simp
  with assms(3) leading_Some [OF Some] show ?thesis by simp
qed

lemma rref_diagonal:
  assumes "reducedRowEchelon m" "rect rows cols m" "c < rows" "c < cols"
  shows "isZero (m ! c ! c) \<or>
         (m ! c ! c = \<lparr>numerator = 1, denominator = 1\<rparr> \<and>
          (\<forall>k<rows. k \<noteq> c \<longrightarrow> isZero (m ! k ! c)))"
proof (cases "leading (m ! c)")
  case None
  with assms show ?thesis
    using rect_nth [of rows cols m c] by (auto intro: leading_None)
next
  case (Some j)
  from assms have len: "length m = rows" by (simp add: rect_length)
  from assms(1) have e: "echelon (map leading m)"
    by (simp add: reducedRowEchelon_def rowEchelon_def)
  from echelon_diagonal [OF e, of c j] Some assms(3) len have cj: "c \<le> j" by simp
  show ?thesis
  proof (cases "c = j")
    case False
    with cj leading_Some [OF Some] show ?thesis by simp
  next
    case True
    from assms(1) have "\<forall>i<length m. case leading (m ! i) of None \<Rightarrow> True
        | Some j \<Rightarrow> m ! i ! j = \<lparr>numerator = 1, denominator = 1\<rparr> \<and>
                     list_all (\<lambda>k. k = i \<or> isZero (m ! k ! j)) [0..<length m]"
      by (simp add: reducedRowEchelon_def list_all_iff)
    with assms(3) len have "case leading (m ! c) of None \<Rightarrow> True
        | Some j \<Rightarrow> m ! c ! j = \<lparr>numerator = 1, denominator = 1\<rparr> \<and>
                     list_all (\<lambda>k. k = c \<or> isZero (m ! k ! j)) [0..<length m]"
      by blast
    with Some have "m ! c ! j = \<lparr>numerator = 1, denominator = 1\<rparr> \<and>
                     list_all (\<lambda>k. k = c \<or> isZero (m ! k ! j)) [0..<length m]"
      by simp
    with True len show ?thesis by (auto simp: list_all_iff)
  qed
qed

lemma pivot_search_stays:
  assumes "cr < length m" "col < length (m ! cr)"
    and "\<And>r. cr < r \<Longrightarrow> r < rows \<Longrightarrow> r < length m \<and> col < length (m ! r) \<and> isZero (m ! r ! col)"
  shows "for_loop (Suc cr) rows (pivotSearch m col) cr = Inr cr"
proof -
  let ?P = "\<lambda>k::nat. \<lambda>t. t = cr"
  have "\<exists>mr. for_loop (Suc cr) rows (pivotSearch m col) cr = Inr mr \<and> ?P (max (Suc cr) rows) mr"
  proof (rule for_loop_total [where P = ?P])
    show "?P (Suc cr) cr" by simp
  next
    fix k t
    assume k: "Suc cr \<le> k" "k < rows" and P: "?P k t"
    from assms(3) [of k] k have "entry m k col = Inr (m ! k ! col)" "toDecimal (m ! k ! col) = 0"
      by (simp_all add: entry_Inr_iff isZero_toDecimal)
    moreover from assms(1,2) have "entry m cr col = Inr (m ! cr ! col)"
      by (simp add: entry_Inr_iff)
    ultimately show "\<exists>t'. pivotSearch m col k t = Inr t' \<and> ?P (Suc k) t'"
      using P by (simp add: pivotSearch_def)
  qed
  then show ?thesis by simp
qed

lemma other_loop_stays:
  assumes "\<And>r. r < rows \<Longrightarrow> r \<noteq> cr \<Longrightarrow> r < length m \<and> col < length (m ! r) \<and> isZero (m ! r ! col)"
  shows "for_loop lo rows (eliminateOther cols col cr) (m, stps) = Inr (m, stps)"
proof -
  let ?P = "\<lambda>k::nat. \<lambda>t. t = (m, stps)"
  have "\<exists>s'. for_loop lo rows (eliminateOther cols col cr) (m, stps) = Inr s' \<and> ?P (max lo rows) s'"
  proof (rule for_loop_total [where P = ?P])
    show "?P lo (m, stps)" by simp
  next
    fix k t
    assume k: "lo \<le> k" "k < rows" and P: "?P k t"
    show "\<exists>t'. eliminateOther cols col cr k t = Inr t' \<and> ?P (Suc k) t'"
    proof (cases "k = cr")
      case True
      with P show ?thesis by (simp add: eliminateOther_def)
    next
      case False
      from assms [OF k(2) False] have "entry m k col = Inr (m ! k ! col)" "isNearZero (m ! k ! col)"
        by (simp_all add: entry_Inr_iff isZero_isNearZero)
      with P False show ?thesis by (simp add: eliminateOther_def)
    qed
  qed
  then show ?thesis by simp
qed

lemma one_not_near_zero: "\<not> isNearZero \<lparr>numerator = 1, denominator = 1\<rparr>"
  by (simp add: isNearZero_def toDecimal_def)

lemma jordanColumn_rref:
  assumes rr: "reducedRowEchelon m" and r: "rect rows cols m" and c: "c < rows" "c < cols"
  shows "jordanColumn rows cols c (c, m, stps) = Inr (c + 1, m, stps)"
proof -
  from assms have b: "c < length m" "c < length (m ! c)"
    using rect_nth [of rows cols m c] by (simp_all add: rect_length)
  from rr have re: "rowEchelon m" by (simp add: reducedRowEchelon_def)
  have below: "r' < length m \<and> c < length (m ! r') \<and> isZero (m ! r' ! c)"
    if "c < r'" "r' < rows" for r'
    using rowEchelon_below_diagonal [OF re r that(1,2) c(2)] that r c rect_nth [of rows cols m r']
    by (simp add: rect_length)
  from pivot_search_stays [OF b below]
  have ps: "for_loop (Suc c) rows (pivotSearch m c) c = Inr c" by simp
  from b have e: "entry m c c = Inr (m ! c ! c)" by (simp add: entry_Inr_iff)
  from rref_diagonal [OF rr r c] show ?thesis
  proof
    assume "isZero (m ! c ! c)"
    then have "isNearZero (m ! c ! c)" by (rule isZero_isNearZero)
    with ps e show ?thesis by (simp add: jordanColumn_def swapStep_same)
  next
    assume d: "m ! c ! c = \<lparr>numerator = 1, denominator = 1\<rparr> \<and>
          (\<forall>k<rows. k \<noteq> c \<longrightarrow> isZero (m ! k ! c))"
    have others: "r' < length m \<and> c < length (m ! r') \<and> isZero (m ! r' ! c)"
      if "r' < rows" "r' \<noteq> c" for r'
      using d that r c rect_nth [of rows cols m r'] by (simp add: rect_length)
    from d e have sc: "scalePivotRow cols c c (m, stps) = Inr (m, stps)"
      by (simp add: scalePivotRow_def Fraction_new_one equals_one)
    from other_loop_stays [of rows c m c 0 cols stps, OF others]
    have ol: "for_loop 0 rows (eliminateOther cols c c) (m, stps) = Inr (m, stps)" by simp
    from d have "\<not> isNearZero (m ! c ! c)" by (simp add: one_not_near_zero)
    with ps e sc ol show ?thesis by (simp add: jordanColumn_def swapStep_same)
  qed
qed

lemma jordanLoop_rref:
  assumes "reducedRowEchelon m" "rect rows cols m"
  shows "\<exists>cr. jordanLoop rows cols c (c, m, stps) = Inr (cr, m, stps)"
proof (induction "columnBound rows cols - c" arbitrary: c)
  case 0
  then have "\<not> c < columnBound rows cols" by simp
  then show ?case by (simp add: jordanLoop.simps [of rows cols c])
next
  case (Suc n)
  then have cb: "c < columnBound rows cols" by simp
  from columnBound_less [OF cb] have b: "c < rows" "c < cols" by simp_all
  from Suc.hyps(2) have "n = columnBound rows cols - Suc c" by simp
  from Suc.hyps(1) [OF this] obtain cr where
    "jordanLoop rows cols (Suc c) (Suc c, m, stps) = Inr (cr, m, stps)" by blast
  with cb b jordanColumn_rref [OF assms b, of stps] show ?case
    by (simp add: jordanLoop.simps [of rows cols c])
qed

subsection \<open>Trace completeness, idempotence and dimensions\<close>



text \<open>
  Claim C8. On a matrix that is already in reduced row-echelon form, Gauss-Jordan
  elimination returns the matrix as it was given, and a trace that consists of the
  initial snapshot only.
\<close>

theorem rref_idempotence:
  assumes "validInput A" and "A \<noteq> []" and "rectangular A"
    and "reducedRowEchelon (inputMatrix A)"
  shows "gaussJordanWithFractions A =
           Inr \<lparr>result = inputMatrix A,
                steps = [\<lparr>matrix = inputMatrix A, operation = ''Initial'',
                          description = ''Starting augmented matrix [A|b]''\<rparr>]\<rparr>"
proof -
  let ?m = "inputMatrix A"
  note c = canonical_inputMatrix [OF assms(1)]
  from assms(2) have cols: "firstRowLength ?m = Inr (columnCount A)"
    by (simp add: firstRowLength_Inr columnCount_hd) (simp add: inputMatrix_def)
  have len: "length ?m = length A" by (simp add: inputMatrix_def)
  from assms(3) have "rect (length ?m) (columnCount A) ?m"
    unfolding len by (intro rect_inputMatrix rectangular_rect)
  from jordanLoop_rref [OF assms(4) this, of 0]
  obtain cr where "jordanLoop (length ?m) (columnCount A) 0
      (0, ?m, [\<lparr>matrix = ?m, operation = ''Initial'',
                  description = ''Starting augmented matrix [A|b]''\<rparr>])
    = Inr (cr, ?m, [\<lparr>matrix = ?m, operation = ''Initial'',
                  description = ''Starting augmented matrix [A|b]''\<rparr>])"
    by blast
  then show ?thesis
    by (simp add: gaussJordanWithFractions_def convert_input [OF assms(1)] Let_def cols
        pushStep_canonical [OF c])
qed

theorem rref_idempotence_witness:
  "validInput (map (map Num) [[1, 2, 0, 3], [0, 0, 1, 4], [0, 0, 0, 0]]) \<and>
   map (map Num) [[1, 2, 0, 3], [0, 0, 1, 4], [0, 0, 0, 0]] \<noteq> [] \<and>
   rectangular (map (map Num) [[1, 2, 0, 3], [0, 0, 1, 4], [0, 0, 0, 0]]) \<and>
   reducedRowEchelon (inputMatrix (map (map Num) [[1, 2, 0, 3], [0, 0, 1, 4], [0, 0, 0, 0]])) \<and>
   gaussJordanWithFractions (map (map Num) [[1, 2, 0, 3], [0, 0, 1, 4], [0, 0, 0, 0]]) =
     Inr \<lparr>result = inputMatrix (map (map Num) [[1, 2, 0, 3], [0, 0, 1, 4], [0, 0, 0, 0]]),
          steps = [\<lparr>matrix = inputMatrix (map (map Num) [[1, 2, 0, 3], [0, 0, 1, 4], [0, 0, 0, 0]]),
                    operation = ''Initial'',
                    description = ''Starting augmented matrix [A|b]''\<rparr>]\<rparr>"
proof -
  let ?A = "map (map Num) [[1, 2, 0, 3], [0, 0, 1, 4], [0, 0, 0, 0 :: int]]"
  have v: "validInput ?A" by code_simp
  have n: "?A \<noteq> []" by simp
  have r: "rectangular ?A" by code_simp
  have e: "reducedRowEchelon (inputMatrix ?A)" by code_simp
  from rref_idempotence [OF v n r e] v n r e show ?thesis by blast
qed



section \<open>The caller's matrix is left alone\<close>


lemma fresh_append: "fresh n m h \<Longrightarrow> fresh n m (h @ ext)"
  by (auto simp: fresh_def nth_append)

lemma take_fresh_append: "fresh n m h \<Longrightarrow> take n (h @ ext) = take n h"
  by (simp add: fresh_def)

lemma frames_ret: "frames n m (ret x)"
  by (simp add: frames_def ret_def)

lemma frames_throw: "frames n m (throw e)"
  by (simp add: frames_def throw_def)

lemma frames_lift: "frames n m (lift r)"
  by (simp add: frames_def lift_def)

lemma frames_bindS:
  assumes "frames n m f" and "\<And>x. frames n m (g x)"
  shows "frames n m (bindS f g)"
proof (unfold frames_def, intro allI impI)
  fix h
  assume fr: "fresh n m h"
  obtain r h' where f: "f h = (r, h')" by (cases "f h")
  from assms(1) [unfolded frames_def, rule_format, OF fr] f
  have 1: "fresh n m h'" "take n h' = take n h"
    by simp_all
  show "fresh n m (snd (bindS f g h)) \<and> take n (snd (bindS f g h)) = take n h"
  proof (cases r)
    case (Inl e)
    with f 1 show ?thesis by (simp add: bindS_def)
  next
    case (Inr x)
    from assms(2) [unfolded frames_def, rule_format, OF 1(1), of x]
    have "fresh n m (snd (g x h'))" "take n (snd (g x h')) = take n h'"
      by simp_all
    with f 1 Inr show ?thesis by (simp add: bindS_def)
  qed
qed

lemma frames_newArray: "frames n m (newArray c)"
  by (auto simp: frames_def newArray_def fresh_append) (simp add: fresh_def)

lemma frames_rowsAt: "frames n m (rowsAt a)"
  by (simp add: frames_def rowsAt_def split: cell.split)

lemma frames_rowAt: "frames n m (rowAt a)"
  by (simp add: frames_def rowAt_def split: cell.split)

lemma frames_mapS:
  assumes "\<And>x. frames n m (f x)"
  shows "frames n m (mapS f xs)"
  by (induction xs) (auto intro!: frames_ret frames_bindS assms)

lemma for_loopS_frame:
  "(\<And>k s. frames n m (body k s)) \<Longrightarrow> fresh n m h \<Longrightarrow>
     fresh n m (snd (for_loopS i hi body s h)) \<and> take n (snd (for_loopS i hi body s h)) = take n h"
proof (induction i hi body s h rule: for_loopS.induct)
  case (1 i hi body s h)
  show ?case
  proof (cases "i < hi")
    case False
    with "1.prems" show ?thesis by (simp add: for_loopS.simps [of i hi])
  next
    case True
    obtain r h' where b: "body i s h = (r, h')" by (cases "body i s h")
    from "1.prems"(1) [unfolded frames_def, rule_format, OF "1.prems"(2), of i s] b
    have 2: "fresh n m h'" "take n h' = take n h"
      by simp_all
    show ?thesis
    proof (cases r)
      case (Inl e)
      with True b 2 show ?thesis by (simp add: for_loopS.simps [of i hi])
    next
      case (Inr s')
      from "1.IH" [OF True b [symmetric] _ "1.prems"(1) 2(1)] Inr
      have "fresh n m (snd (for_loopS (Suc i) hi body s' h')) \<and>
            take n (snd (for_loopS (Suc i) hi body s' h')) = take n h'"
        by simp
      with True b Inr 2 show ?thesis by (simp add: for_loopS.simps [of i hi])
    qed
  qed
qed

lemma frames_for_loopS:
  assumes "\<And>k s. frames n m (body k s)"
  shows "frames n m (for_loopS i hi body s)"
  using for_loopS_frame [of n m body, OF assms] by (simp add: frames_def)

lemma frames_entryS: "frames n m (entryS a i j)"
  unfolding entryS_def
  by (auto intro!: frames_bindS frames_rowsAt frames_rowAt frames_ret frames_throw
      split: operand.split)

lemma frames_clone: "frames n m (cloneFractionMatrixS a)"
  unfolding cloneFractionMatrixS_def
  by (intro frames_bindS frames_rowsAt frames_rowAt frames_mapS frames_lift frames_newArray)

lemma frames_pushStepS: "frames n m (pushStepS stps a opn desc)"
  unfolding pushStepS_def
  by (intro frames_bindS frames_clone frames_ret)

text \<open>The two writes go to arrays that the call allocated.\<close>

lemma frames_putEntryS: "frames n m (putEntryS m i j v)"
proof (unfold frames_def, intro allI impI)
  fix h
  assume fr: "fresh n m h"
  show "fresh n m (snd (putEntryS m i j v h)) \<and> take n (snd (putEntryS m i j v h)) = take n h"
  proof (cases "h ! m")
    case (Row es)
    with fr show ?thesis
      by (simp add: putEntryS_def bindS_def rowsAt_def fresh_def)
  next
    case (Rows rs)
    show ?thesis
    proof (cases "i < length rs")
      case False
      with Rows fr show ?thesis
        by (simp add: putEntryS_def bindS_def rowsAt_def fresh_def throw_def)
    next
      case True
      with Rows fr have r: "n \<le> rs ! i" by (auto simp: fresh_def)
      have "fresh n m (h[rs ! i := Row es])" for es
        using fr Rows by (cases "rs ! i = m") (auto simp: fresh_def)
      moreover have "take n (h[rs ! i := c]) = take n h" for c
        using r by simp
      ultimately show ?thesis
        using Rows True fr
        by (auto simp: putEntryS_def bindS_def rowsAt_def rowAt_def setCell_def fresh_def
            split: cell.split)
    qed
  qed
qed

lemma frames_swapRowsS: "frames n m (swapRowsS m i k)"
proof (unfold frames_def, intro allI impI)
  fix h
  assume fr: "fresh n m h"
  show "fresh n m (snd (swapRowsS m i k h)) \<and> take n (snd (swapRowsS m i k h)) = take n h"
  proof (cases "h ! m")
    case (Row es)
    with fr show ?thesis
      by (simp add: swapRowsS_def bindS_def rowsAt_def fresh_def)
  next
    case (Rows rs)
    show ?thesis
    proof (cases "i < length rs \<and> k < length rs")
      case False
      with Rows fr show ?thesis
        by (auto simp: swapRowsS_def bindS_def rowsAt_def fresh_def throw_def)
    next
      case True
      have "set ((rs[i := rs ! k])[k := rs ! i]) \<subseteq> set rs"
        using True by (auto dest!: set_update_subset_insert [THEN subsetD])
      with fr Rows have "fresh n m (h[m := Rows ((rs[i := rs ! k])[k := rs ! i])])"
        by (auto simp: fresh_def)
      moreover from fr have "take n (h[m := c]) = take n h" for c
        by (simp add: fresh_def)
      ultimately show ?thesis
        using Rows True fr
        by (simp add: swapRowsS_def bindS_def rowsAt_def setCell_def fresh_def)
    qed
  qed
qed


lemma frames_pivotSearchS: "frames n m (pivotSearchS a col row maxRow)"
  unfolding pivotSearchS_def
  by (intro frames_bindS frames_entryS frames_ret)

lemma frames_swapStepS: "frames n m (swapStepS m i maxRow stps)"
  unfolding swapStepS_def
  by (auto intro!: frames_bindS frames_swapRowsS frames_pushStepS frames_ret)

lemma frames_combineEntryS: "frames n m (combineEntryS m row p factor j u)"
  unfolding combineEntryS_def
  by (intro frames_bindS frames_entryS frames_lift frames_putEntryS)

lemma frames_scaleEntryS: "frames n m (scaleEntryS m r sf j u)"
  unfolding scaleEntryS_def
  by (intro frames_bindS frames_entryS frames_lift frames_putEntryS)

lemma frames_eliminateBelowS: "frames n m (eliminateBelowS m cols col row stps)"
  unfolding eliminateBelowS_def
  by (auto intro!: frames_bindS frames_entryS frames_lift frames_ret frames_for_loopS
      frames_combineEntryS frames_pushStepS)

lemma frames_gaussColumnS: "frames n m (gaussColumnS m rows cols col stps)"
  unfolding gaussColumnS_def
  by (auto intro!: frames_bindS frames_entryS frames_ret frames_for_loopS
      frames_pivotSearchS frames_swapStepS frames_eliminateBelowS)

lemma frames_scalePivotRowS: "frames n m (scalePivotRowS m cols col cr stps)"
  unfolding scalePivotRowS_def
  by (auto intro!: frames_bindS frames_entryS frames_lift frames_ret frames_for_loopS
      frames_scaleEntryS frames_pushStepS)

lemma frames_eliminateOtherS: "frames n m (eliminateOtherS m cols col cr row stps)"
  unfolding eliminateOtherS_def
  by (auto intro!: frames_bindS frames_entryS frames_lift frames_ret frames_for_loopS
      frames_combineEntryS frames_pushStepS)

lemma frames_jordanColumnS: "frames n m (jordanColumnS m rows cols col st)"
  unfolding jordanColumnS_def
  by (cases st)
    (auto intro!: frames_bindS frames_entryS frames_ret frames_for_loopS
      frames_pivotSearchS frames_swapStepS frames_scalePivotRowS frames_eliminateOtherS)

lemma jordanLoopS_frame:
  "fresh n m h \<Longrightarrow>
     fresh n m (snd (jordanLoopS m rows cols col st h)) \<and>
     take n (snd (jordanLoopS m rows cols col st h)) = take n h"
proof (induction m rows cols col st h rule: jordanLoopS.induct)
  case (1 m rows cols col st h)
  show ?case
  proof (cases "col < columnBound rows cols \<and> \<not> rows \<le> fst st")
    case False
    with "1.prems" show ?thesis
      by (auto simp: jordanLoopS.simps [of m rows cols col])
  next
    case True
    obtain r h' where b: "jordanColumnS m rows cols col st h = (r, h')"
      by (cases "jordanColumnS m rows cols col st h")
    from frames_jordanColumnS [of n m rows cols col st, unfolded frames_def, rule_format, OF "1.prems"] b
    have 2: "fresh n m h'" "take n h' = take n h"
      by simp_all
    show ?thesis
    proof (cases r)
      case (Inl e)
      with True b 2 show ?thesis by (simp add: jordanLoopS.simps [of m rows cols col])
    next
      case (Inr st')
      from "1.IH" [OF _ _ b [symmetric] _ 2(1)] True Inr
      have "fresh n m (snd (jordanLoopS m rows cols (Suc col) st' h')) \<and>
            take n (snd (jordanLoopS m rows cols (Suc col) st' h')) = take n h'"
        by simp
      with True b Inr 2 show ?thesis by (simp add: jordanLoopS.simps [of m rows cols col])
    qed
  qed
qed

lemma frames_jordanLoopS: "frames n m (jordanLoopS m rows cols col st)"
  using jordanLoopS_frame [of n m] by (simp add: frames_def)

lemma frames_dimensionsS: "frames n m (dimensionsS a)"
  unfolding dimensionsS_def
  by (auto intro!: frames_bindS frames_rowsAt frames_rowAt frames_ret frames_throw
      split: list.split)

text \<open>The conversion of the input only allocates, and what it returns is new.\<close>

lemma mapS_allocates:
  assumes "\<And>x h. \<exists>ext. snd (f x h) = h @ ext \<and> (\<forall>y. fst (f x h) = Inr y \<longrightarrow> length h \<le> y)"
  shows "\<exists>ext. snd (mapS f xs h) = h @ ext \<and>
           (\<forall>ys. fst (mapS f xs h) = Inr ys \<longrightarrow> (\<forall>y\<in>set ys. length h \<le> y))"
proof (induction xs arbitrary: h)
  case Nil
  show ?case by (simp add: ret_def)
next
  case (Cons x xs)
  from assms [of x h] obtain e1 where 1: "snd (f x h) = h @ e1"
    "\<forall>y. fst (f x h) = Inr y \<longrightarrow> length h \<le> y" by blast
  obtain r h1 where f: "f x h = (r, h1)" by (cases "f x h")
  show ?case
  proof (cases r)
    case (Inl e)
    with f 1 show ?thesis by (simp add: bindS_def)
  next
    case (Inr y)
    from Cons.IH [of h1] obtain e2 where 2: "snd (mapS f xs h1) = h1 @ e2"
      "\<forall>ys. fst (mapS f xs h1) = Inr ys \<longrightarrow> (\<forall>y\<in>set ys. length h1 \<le> y)" by blast
    obtain r2 h2 where m: "mapS f xs h1 = (r2, h2)" by (cases "mapS f xs h1")
    from f 1 have h1: "h1 = h @ e1" by simp
    show ?thesis
    proof (cases r2)
      case (Inl e)
      with f Inr m 2 h1 show ?thesis by (simp add: bindS_def)
    next
      case r2: (Inr ys)
      with f Inr m 1 2 h1 show ?thesis
        by (auto simp: bindS_def ret_def)
    qed
  qed
qed

lemma row_copy_allocates:
  "\<exists>ext. snd (bindS (rowAt r) (\<lambda>es. bindS (lift (g es)) (\<lambda>fs. newArray (Row (map Frac fs)))) h)
            = h @ ext \<and>
         (\<forall>y. fst (bindS (rowAt r) (\<lambda>es. bindS (lift (g es)) (\<lambda>fs. newArray (Row (map Frac fs)))) h)
            = Inr y \<longrightarrow> length h \<le> y)"
  by (auto simp: bindS_def rowAt_def lift_def newArray_def split: cell.split sum.split)

lemma convertS_fresh:
  "take (length h) (snd (convertS a h)) = h \<and>
   (\<forall>m. fst (convertS a h) = Inr m \<longrightarrow> fresh (length h) m (snd (convertS a h)))"
proof -
  let ?f = "\<lambda>r. bindS (rowAt r) (\<lambda>es. bindS (lift (mapE toFraction es)) (\<lambda>fs.
                         newArray (Row (map Frac fs))))"
  show ?thesis
  proof (cases "a < length h")
    case False
    then show ?thesis by (simp add: convertS_def bindS_def rowsAt_def)
  next
    case a: True
    show ?thesis
    proof (cases "h ! a")
      case (Row es)
      with a show ?thesis by (simp add: convertS_def bindS_def rowsAt_def)
    next
      case (Rows rs)
      from mapS_allocates [of ?f rs h, OF row_copy_allocates]
      obtain ext where e: "snd (mapS ?f rs h) = h @ ext"
        "\<forall>ys. fst (mapS ?f rs h) = Inr ys \<longrightarrow> (\<forall>y\<in>set ys. length h \<le> y)" by blast
      obtain r h1 where m: "mapS ?f rs h = (r, h1)" by (cases "mapS ?f rs h")
      show ?thesis
      proof (cases r)
        case (Inl err)
        with a Rows m e show ?thesis by (simp add: convertS_def bindS_def rowsAt_def)
      next
        case (Inr addrs)
        with a Rows m e show ?thesis
          by (auto simp: convertS_def bindS_def rowsAt_def newArray_def fresh_def nth_append)
      qed
    qed
  qed
qed

lemma after_convert:
  assumes "\<And>m. frames (length h) m (g m)"
  shows "take (length h) (snd (bindS (convertS a) g h)) = h"
proof -
  obtain r h1 where c: "convertS a h = (r, h1)" by (cases "convertS a h")
  from convertS_fresh [of h a] c have 1: "take (length h) h1 = h"
    "\<forall>m. r = Inr m \<longrightarrow> fresh (length h) m h1" by simp_all
  show ?thesis
  proof (cases r)
    case (Inl e)
    with c 1 show ?thesis by (simp add: bindS_def)
  next
    case (Inr m)
    with 1 have "fresh (length h) m h1" by simp
    from assms [of m, unfolded frames_def, rule_format, OF this] 1(1) c Inr
    show ?thesis by (simp add: bindS_def)
  qed
qed

lemma gaussianS_frame: "take (length h) (snd (gaussianEliminationWithFractionsS a h)) = h"
  unfolding gaussianEliminationWithFractionsS_def
  by (rule after_convert)
    (auto intro!: frames_bindS frames_dimensionsS frames_pushStepS frames_for_loopS
      frames_gaussColumnS frames_ret)

lemma jordanS_frame: "take (length h) (snd (gaussJordanWithFractionsS a h)) = h"
  unfolding gaussJordanWithFractionsS_def
  by (rule after_convert)
    (auto intro!: frames_bindS frames_dimensionsS frames_pushStepS frames_jordanLoopS frames_ret)

lemma those_rows_Some:
  "those_rows xs = Some A \<Longrightarrow> x \<in> set xs \<Longrightarrow> x \<noteq> None"
  by (induction xs arbitrary: A) (auto split: option.splits)

lemma readMatrix_frame:
  assumes "readMatrix h a = Some A" "take (length h) h' = h"
  shows "readMatrix h' a = Some A"
proof -
  have len: "length h \<le> length h'"
    using arg_cong [OF assms(2), of length] by simp
  have nth: "h' ! p = h ! p" if "p < length h" for p
    using that assms(2) by (metis nth_take)
  from assms(1) obtain rs where a: "a < length h" "h ! a = Rows rs"
    "those_rows (map (readRow h) rs) = Some A"
    by (auto simp: readMatrix_def split: if_splits cell.splits)
  have "readRow h' r = readRow h r" if "r \<in> set rs" for r
  proof -
    from those_rows_Some [OF a(3), of "readRow h r"] that have "readRow h r \<noteq> None" by simp
    then have "r < length h" by (auto simp: readRow_def split: if_splits)
    with nth [of r] len show ?thesis by (simp add: readRow_def)
  qed
  then have "map (readRow h') rs = map (readRow h) rs" by simp
  with a(3) have "those_rows (map (readRow h') rs) = Some A" by (simp only:)
  with a(1,2) nth [of a] len show ?thesis by (simp add: readMatrix_def)
qed

text \<open>
  Claim C9. Whatever the store holds and whatever the call does, return or throw, every
  array that existed before a call of either elimination function is the same after it.
  So the caller's matrix, the array of its rows and each row array, has the dimensions
  and the entries it had before the call.
\<close>

theorem input_unchanged:
  "take (length h) (snd (gaussianEliminationWithFractionsS a h)) = h \<and>
   take (length h) (snd (gaussJordanWithFractionsS a h)) = h \<and>
   (readMatrix h a = Some A \<longrightarrow>
      readMatrix (snd (gaussianEliminationWithFractionsS a h)) a = Some A \<and>
      readMatrix (snd (gaussJordanWithFractionsS a h)) a = Some A)"
  using gaussianS_frame [of h a] jordanS_frame [of h a]
  by (auto intro: readMatrix_frame)

theorem input_unchanged_witness:
  "readMatrix [Row [Num 0, Num 2, Num 4], Row [Num 1, Num 1, Num 1], Rows [0, 1]] 2
     = Some [[Num 0, Num 2, Num 4], [Num 1, Num 1, Num 1]] \<and>
   readMatrix (snd (gaussianEliminationWithFractionsS 2
       [Row [Num 0, Num 2, Num 4], Row [Num 1, Num 1, Num 1], Rows [0, 1]])) 2
     = Some [[Num 0, Num 2, Num 4], [Num 1, Num 1, Num 1]] \<and>
   readMatrix (snd (gaussJordanWithFractionsS 2
       [Row [Num 0, Num 2, Num 4], Row [Num 1, Num 1, Num 1], Rows [0, 1]])) 2
     = Some [[Num 0, Num 2, Num 4], [Num 1, Num 1, Num 1]]"
proof -
  have "readMatrix [Row [Num 0, Num 2, Num 4], Row [Num 1, Num 1, Num 1], Rows [0, 1]] 2
     = Some [[Num 0, Num 2, Num 4], [Num 1, Num 1, Num 1]]"
    by code_simp
  with input_unchanged [of "[Row [Num 0, Num 2, Num 4], Row [Num 1, Num 1, Num 1], Rows [0, 1]]" 2
      "[[Num 0, Num 2, Num 4], [Num 1, Num 1, Num 1]]"]
  show ?thesis by blast
qed
section \<open>The store model computes what the value model computes\<close>

text \<open>
  The engine is modelled twice: on matrices as values (the model the properties of the
  results are proved on) and on a store of arrays (the model that shows what is mutated).
  The lemmas of this section relate the two: started on a store in which the reference
  \<^verbatim>\<open>a\<close> reads as the matrix \<^verbatim>\<open>A\<close>, the store-level function raises the same exception as
  the value-level one, or returns a reference and a trace that read back from the final
  store as the value-level result and steps.
\<close>

lemma holds_D:
  assumes "holds n h m M"
  shows "\<exists>rs. m < n \<and> n \<le> length h \<and> m < length h \<and> h ! m = Rows rs \<and> length rs = length M \<and>
           distinct rs \<and> m \<notin> set rs \<and>
           (\<forall>i<length M. rs ! i < n \<and> rs ! i < length h \<and> rs ! i \<noteq> m \<and>
              h ! (rs ! i) = Row (map Frac (M ! i)))"
proof -
  from assms obtain rs where rs: "m < n" "n \<le> length h" "h ! m = Rows rs"
    "length rs = length M" "distinct rs" "m \<notin> set rs"
    "\<forall>i<length M. rs ! i < n \<and> h ! (rs ! i) = Row (map Frac (M ! i))"
    unfolding holds_def by blast
  have "rs ! i < n \<and> rs ! i < length h \<and> rs ! i \<noteq> m \<and> h ! (rs ! i) = Row (map Frac (M ! i))"
    if "i < length M" for i
  proof -
    from rs(7) that have 1: "rs ! i < n" "h ! (rs ! i) = Row (map Frac (M ! i))" by simp_all
    from 1(1) rs(2) have "rs ! i < length h" by simp
    moreover from rs(4,6) that have "rs ! i \<noteq> m" by (auto simp: in_set_conv_nth)
    ultimately show ?thesis using 1 by simp
  qed
  with rs show ?thesis by auto
qed

lemma holds_append: "holds n h m M \<Longrightarrow> holds n (h @ ext) m M"
proof -
  assume a: "holds n h m M"
  from holds_D [OF a] obtain rs where rs: "m < n" "n \<le> length h" "m < length h" "h ! m = Rows rs"
    "length rs = length M" "distinct rs" "m \<notin> set rs"
    "\<forall>i<length M. rs ! i < n \<and> rs ! i < length h \<and> rs ! i \<noteq> m \<and>
              h ! (rs ! i) = Row (map Frac (M ! i))" by blast
  then show ?thesis
    unfolding holds_def by (intro conjI exI [of _ rs]) (simp_all add: nth_append)
qed

lemma snapshot_append: "snapshot n h c S \<Longrightarrow> snapshot n (h @ ext) c S"
  unfolding snapshot_def by (auto simp: nth_append)

lemma traceOf_append: "traceOf n h stps T \<Longrightarrow> traceOf n (h @ ext) stps T"
  unfolding traceOf_def
  by (erule list_all2_mono) (auto intro: snapshot_append)

lemma snapshot_same_above:
  assumes "snapshot n h c S" "length h' = length h" "\<forall>p. n \<le> p \<longrightarrow> h' ! p = h ! p"
  shows "snapshot n h' c S"
  using assms unfolding snapshot_def by auto

lemma traceOf_same_above:
  assumes "traceOf n h stps T" "length h' = length h" "\<forall>p. n \<le> p \<longrightarrow> h' ! p = h ! p"
  shows "traceOf n h' stps T"
  using assms(1) unfolding traceOf_def
  by (rule list_all2_mono) (auto intro: snapshot_same_above [OF _ assms(2,3)])

lemma traceOf_snoc:
  "traceOf n h stps T \<Longrightarrow> snapshot n h c S \<Longrightarrow>
     traceOf n h (stps @ [(c, opn, desc)]) (T @ [\<lparr>matrix = S, operation = opn, description = desc\<rparr>])"
  by (simp add: traceOf_def list_all2_appendI)

lemma entryS_holds:
  assumes "holds n h m M"
  shows "entryS m i j h = (entry M i j, h)"
proof -
  from holds_D [OF assms] obtain rs where rs: "m < length h" "h ! m = Rows rs" "length rs = length M"
    "\<forall>i<length M. rs ! i < length h \<and> h ! (rs ! i) = Row (map Frac (M ! i))"
    by blast
  then have r: "rowsAt m h = (Inr rs, h)" by (simp add: rowsAt_def)
  show ?thesis
  proof (cases "i < length M")
    case False
    with r rs show ?thesis by (simp add: entryS_def bindS_def throw_def entry_def)
  next
    case True
    with rs have "rowAt (rs ! i) h = (Inr (map Frac (M ! i)), h)"
      by (simp add: rowAt_def)
    with r rs True show ?thesis
      by (simp add: entryS_def bindS_def throw_def ret_def entry_def)
  qed
qed

lemma putEntryS_holds:
  assumes "holds n h m M" "i < length M"
  shows "\<exists>h'. putEntryS m i j v h = (Inr (), h') \<and> holds n h' m (M[i := (M ! i)[j := v]]) \<and>
           length h' = length h \<and> (\<forall>p. n \<le> p \<longrightarrow> h' ! p = h ! p)"
proof -
  from holds_D [OF assms(1)] obtain rs where rs: "m < n" "n \<le> length h" "h ! m = Rows rs"
    "length rs = length M" "distinct rs" "m \<notin> set rs"
    "\<forall>i<length M. rs ! i < n \<and> h ! (rs ! i) = Row (map Frac (M ! i))"
    and more: "m < length h" "\<forall>i<length M. rs ! i < length h \<and> rs ! i \<noteq> m"
    by blast
  let ?h = "h[rs ! i := Row ((map Frac (M ! i))[j := Frac v])]"
  from rs more assms(2) have ri: "rs ! i < n" "h ! (rs ! i) = Row (map Frac (M ! i))" "rs ! i \<noteq> m"
    "rs ! i < length h"
    by simp_all
  from rs ri more assms(2) have run: "putEntryS m i j v h = (Inr (), ?h)"
    by (simp add: putEntryS_def bindS_def rowsAt_def rowAt_def setCell_def)
  have cells: "rs ! k < n \<and> ?h ! (rs ! k) = Row (map Frac ((M[i := (M ! i)[j := v]]) ! k))"
    if "k < length M" for k
  proof (cases "k = i")
    case True
    with ri rs(2) assms(2) show ?thesis by (simp add: map_update)
  next
    case False
    with rs(4,5) that assms(2) have "rs ! k \<noteq> rs ! i"
      by (simp add: nth_eq_iff_index_eq)
    with rs(7) that False show ?thesis by simp
  qed
  from rs ri have "?h ! m = Rows rs" by simp
  with rs cells have "holds n ?h m (M[i := (M ! i)[j := v]])"
    unfolding holds_def by (intro conjI exI [of _ rs]) simp_all
  moreover from ri have "\<forall>p. n \<le> p \<longrightarrow> ?h ! p = h ! p" by auto
  ultimately show ?thesis using run by simp
qed

lemma swapRowsS_holds:
  assumes "holds n h m M" "i < length M" "k < length M"
  shows "\<exists>h'. swapRowsS m i k h = (Inr (), h') \<and> holds n h' m (swapRows M i k) \<and>
           length h' = length h \<and> (\<forall>p. n \<le> p \<longrightarrow> h' ! p = h ! p)"
proof -
  from holds_D [OF assms(1)] obtain rs where rs: "m < n" "n \<le> length h" "h ! m = Rows rs"
    "length rs = length M" "distinct rs" "m \<notin> set rs"
    "\<forall>i<length M. rs ! i < n \<and> h ! (rs ! i) = Row (map Frac (M ! i))"
    and more: "m < length h" "\<forall>i<length M. rs ! i < length h \<and> rs ! i \<noteq> m"
    by blast
  let ?rs = "(rs[i := rs ! k])[k := rs ! i]"
  let ?h = "h[m := Rows ?rs]"
  from rs more assms have run: "swapRowsS m i k h = (Inr (), ?h)"
    by (simp add: swapRowsS_def bindS_def rowsAt_def setCell_def)
  have d: "distinct ?rs" "set ?rs = set rs"
    using assms rs(4,5) by (simp_all add: distinct_swap set_swap)
  have cells: "?rs ! q < n \<and> ?h ! (?rs ! q) = Row (map Frac (swapRows M i k ! q))"
    if "q < length M" for q
  proof -
    define q' where "q' = (if q = k then i else if q = i then k else q)"
    have 1: "?rs ! q = rs ! q'"
      using that assms rs(4) by (auto simp: q'_def nth_list_update)
    have 2: "swapRows M i k ! q = M ! q'"
      using that assms by (auto simp: q'_def swapRows_def nth_list_update)
    have q': "q' < length M" using that assms by (simp add: q'_def)
    with more rs(7) have "rs ! q' \<noteq> m" "rs ! q' < n" "h ! (rs ! q') = Row (map Frac (M ! q'))"
      by simp_all
    then show ?thesis
      unfolding 1 2 by simp
  qed
  from more have "?h ! m = Rows ?rs" by simp
  moreover have "length (swapRows M i k) = length M" by (simp add: swapRows_def)
  ultimately have "holds n ?h m (swapRows M i k)"
    using rs d cells unfolding holds_def by (intro conjI exI [of _ ?rs]) simp_all
  moreover from rs have "\<forall>p. n \<le> p \<longrightarrow> ?h ! p = h ! p" by auto
  ultimately show ?thesis using run by simp
qed

lemma copy_rows:
  fixes g :: "operand list \<Rightarrow> error + Fraction list"
  assumes "list_all2 (\<lambda>r es. r < length h \<and> h ! r = Row es) rs rows"
  shows "case mapE g rows of
           Inl e \<Rightarrow> fst (mapS (\<lambda>r. bindS (rowAt r) (\<lambda>es. bindS (lift (g es)) (\<lambda>fs.
                          newArray (Row (map Frac fs))))) rs h) = Inl e
         | Inr Fs \<Rightarrow> mapS (\<lambda>r. bindS (rowAt r) (\<lambda>es. bindS (lift (g es)) (\<lambda>fs.
                          newArray (Row (map Frac fs))))) rs h
                      = (Inr [length h..<length h + length rs],
                         h @ map (\<lambda>fs. Row (map Frac fs)) Fs)"
  using assms
proof (induction rs arbitrary: h rows)
  case Nil
  then show ?case by (simp add: ret_def)
next
  case (Cons r rs)
  let ?f = "\<lambda>r. bindS (rowAt r) (\<lambda>es. bindS (lift (g es)) (\<lambda>fs. newArray (Row (map Frac fs))))"
  from Cons.prems obtain es rows' where rows: "rows = es # rows'"
    and r: "r < length h" "h ! r = Row es"
    and rest: "list_all2 (\<lambda>r es. r < length h \<and> h ! r = Row es) rs rows'"
    by (auto simp: list_all2_Cons1)
  show ?case
  proof (cases "g es")
    case (Inl e)
    with r have "?f r h = (Inl e, h)"
      by (simp add: bindS_def rowAt_def lift_def)
    with Inl rows show ?thesis by (simp add: bindS_def)
  next
    case (Inr fs)
    let ?h1 = "h @ [Row (map Frac fs)]"
    from Inr r have f: "?f r h = (Inr (length h), ?h1)"
      by (simp add: bindS_def rowAt_def lift_def newArray_def)
    from rest have "list_all2 (\<lambda>r es. r < length ?h1 \<and> ?h1 ! r = Row es) rs rows'"
      by (rule list_all2_mono) (auto simp: nth_append)
    note IH = Cons.IH [OF this]
    show ?thesis
    proof (cases "mapE g rows'")
      case (Inl e)
      with IH have "fst (mapS ?f rs ?h1) = Inl e" by simp
      then obtain h2 where "mapS ?f rs ?h1 = (Inl e, h2)" by (cases "mapS ?f rs ?h1") auto
      with f Inl Inr rows show ?thesis by (simp add: bindS_def)
    next
      case Fs: (Inr Fs)
      with IH have "mapS ?f rs ?h1 = (Inr [length ?h1..<length ?h1 + length rs],
                         ?h1 @ map (\<lambda>fs. Row (map Frac fs)) Fs)" by simp
      moreover have "[length h..<length h + length (r # rs)]
          = length h # [length ?h1..<length ?h1 + length rs]"
        by (simp add: upt_rec [of "length h"] del: upt_Suc)
      ultimately show ?thesis
        using f Fs Inr rows by (simp add: bindS_def ret_def del: upt_Suc)
    qed
  qed
qed

lemma those_rows_all2:
  "those_rows (map (readRow h) rs) = Some A \<Longrightarrow>
     list_all2 (\<lambda>r es. r < length h \<and> h ! r = Row es) rs A"
proof (induction rs arbitrary: A)
  case Nil
  then show ?case by simp
next
  case (Cons r rs)
  from Cons.prems obtain es rest where 1: "readRow h r = Some es"
    "those_rows (map (readRow h) rs) = Some rest" "A = es # rest"
    by (auto split: option.splits)
  from 1(1) have "r < length h \<and> h ! r = Row es"
    by (auto simp: readRow_def split: if_splits cell.splits)
  with Cons.IH [OF 1(2)] 1(3) show ?case by simp
qed

lemma mapE_length: "mapE f xs = Inr ys \<Longrightarrow> length ys = length xs"
  by (induction xs arbitrary: ys) (auto simp: bind_err_Inr_iff)

lemma convert_sim:
  assumes "readMatrix h a = Some A"
  shows "case mapE (mapE toFraction) A of
           Inl e \<Rightarrow> fst (convertS a h) = Inl e
         | Inr M \<Rightarrow> \<exists>m h1. convertS a h = (Inr m, h1) \<and> holds (length h1) h1 m M"
proof -
  from assms obtain rs where a: "a < length h" "h ! a = Rows rs"
    "those_rows (map (readRow h) rs) = Some A"
    by (auto simp: readMatrix_def split: if_splits cell.splits)
  from a have r: "rowsAt a h = (Inr rs, h)" by (simp add: rowsAt_def)
  note all2 = those_rows_all2 [OF a(3)]
  then have len: "length rs = length A" by (rule list_all2_lengthD)
  let ?f = "\<lambda>r. bindS (rowAt r) (\<lambda>es. bindS (lift (mapE toFraction es)) (\<lambda>fs.
              newArray (Row (map Frac fs))))"
  note cr = copy_rows [OF all2, of "mapE toFraction"]
  show ?thesis
  proof (cases "mapE (mapE toFraction) A")
    case (Inl e)
    with cr obtain h2 where "mapS ?f rs h = (Inl e, h2)"
      by (cases "mapS ?f rs h") auto
    with r Inl show ?thesis by (simp add: convertS_def bindS_def)
  next
    case (Inr M)
    let ?h1 = "h @ map (\<lambda>fs. Row (map Frac fs)) M"
    let ?rs = "[length h..<length h + length rs]"
    from cr Inr have m: "mapS ?f rs h = (Inr ?rs, ?h1)" by simp
    from mapE_length [OF Inr] len have lM: "length M = length rs" by simp
    let ?h2 = "?h1 @ [Rows ?rs]"
    from r m have run: "convertS a h = (Inr (length ?h1), ?h2)"
      by (simp add: convertS_def bindS_def newArray_def)
    have top: "?h2 ! length ?h1 = Rows ?rs" by (rule nth_append_length)
    have "holds (length ?h2) ?h2 (length ?h1) M"
      unfolding holds_def
    proof (intro conjI exI [of _ ?rs] allI impI)
      show "?h2 ! length ?h1 = Rows ?rs" by (rule top)
    next
      fix i assume i: "i < length M"
      with lM show "?rs ! i < length ?h2" by simp
      from i lM have "?h2 ! (?rs ! i) = ?h1 ! (length h + i)"
        by (simp add: nth_append)
      also from i have "\<dots> = Row (map Frac (M ! i))" by (simp add: nth_append)
      finally show "?h2 ! (?rs ! i) = Row (map Frac (M ! i))" .
    qed (simp_all add: lM)
    with run show ?thesis using Inr by simp
  qed
qed

lemma mapE_map: "mapE g (map f xs) = mapE (\<lambda>x. g (f x)) xs"
  by (induction xs) simp_all

lemma clone_sim:
  assumes "holds n h m M"
  shows "case cloneFractionMatrix M of
           Inl e \<Rightarrow> fst (cloneFractionMatrixS m h) = Inl e
         | Inr S \<Rightarrow> \<exists>c ext. cloneFractionMatrixS m h = (Inr c, h @ ext) \<and>
                      snapshot n (h @ ext) c S"
proof -
  from holds_D [OF assms] obtain rs where rs: "n \<le> length h" "m < length h" "h ! m = Rows rs"
    "length rs = length M"
    "\<forall>i<length M. rs ! i < length h \<and> h ! (rs ! i) = Row (map Frac (M ! i))"
    by blast
  from rs have r: "rowsAt m h = (Inr rs, h)" by (simp add: rowsAt_def)
  from rs have all2: "list_all2 (\<lambda>r es. r < length h \<and> h ! r = Row es) rs (map (map Frac) M)"
    by (simp add: list_all2_conv_all_nth)
  let ?f = "\<lambda>r. bindS (rowAt r) (\<lambda>es. bindS (lift (mapE cloneEntry es)) (\<lambda>fs.
              newArray (Row (map Frac fs))))"
  have pure: "mapE (mapE cloneEntry) (map (map Frac) M) = cloneFractionMatrix M"
    by (simp add: cloneFractionMatrix_def mapE_map cloneEntry_def)
  note cr = copy_rows [OF all2, of "mapE cloneEntry", unfolded pure]
  show ?thesis
  proof (cases "cloneFractionMatrix M")
    case (Inl e)
    with cr obtain h2 where "mapS ?f rs h = (Inl e, h2)"
      by (cases "mapS ?f rs h") auto
    with r Inl show ?thesis by (simp add: cloneFractionMatrixS_def bindS_def)
  next
    case (Inr S)
    let ?h1 = "h @ map (\<lambda>fs. Row (map Frac fs)) S"
    let ?rs = "[length h..<length h + length rs]"
    from cr Inr have m: "mapS ?f rs h = (Inr ?rs, ?h1)" by simp
    from Inr have lS: "length S = length rs"
      using mapE_length [of _ M S] rs(4) by (simp add: cloneFractionMatrix_def)
    let ?ext = "map (\<lambda>fs. Row (map Frac fs)) S @ [Rows ?rs]"
    from r m have run: "cloneFractionMatrixS m h = (Inr (length ?h1), h @ ?ext)"
      by (simp add: cloneFractionMatrixS_def bindS_def newArray_def)
    have top: "(h @ ?ext) ! length ?h1 = Rows ?rs"
      using nth_append_length [of ?h1 "Rows ?rs" "[]"] by simp
    have "snapshot n (h @ ?ext) (length ?h1) S"
      unfolding snapshot_def
    proof (intro conjI exI [of _ ?rs] allI impI)
      show "(h @ ?ext) ! length ?h1 = Rows ?rs" by (rule top)
    next
      show "n \<le> length ?h1" using rs(1) by simp
      fix i assume i: "i < length S"
      with lS rs(1) show "n \<le> ?rs ! i" by simp
      from i lS show "?rs ! i < length (h @ ?ext)" by simp
      from i lS have "(h @ ?ext) ! (?rs ! i) = ?h1 ! (length h + i)"
        by (simp add: nth_append)
      also from i have "\<dots> = Row (map Frac (S ! i))" by (simp add: nth_append)
      finally show "(h @ ?ext) ! (?rs ! i) = Row (map Frac (S ! i))" .
    qed (simp_all add: lS nth_append)
    with run Inr show ?thesis by auto
  qed
qed

lemma agrees_Inl [simp]: "agrees r (Inl e) P \<longleftrightarrow> r = Inl e"
  by (simp add: agrees_def)

lemma agrees_Inr [simp]: "agrees r (Inr y) P \<longleftrightarrow> (\<exists>x. r = Inr x \<and> P x y)"
  by (simp add: agrees_def)

lemma sim_read:
  assumes "f h = (p, h)"
    and "\<And>x. p = Inr x \<Longrightarrow> agrees (fst (g x h)) (q x) (\<lambda>a b. Q a b (snd (g x h)))"
  shows "agrees (fst (bindS f g h)) (bind_err p q) (\<lambda>a b. Q a b (snd (bindS f g h)))"
  using assms by (cases p) (simp_all add: bindS_def)

lemma sim_bind:
  assumes "agrees (fst (f h)) p (\<lambda>x y. R x y (snd (f h)))"
    and "\<And>x y. R x y (snd (f h)) \<Longrightarrow>
           agrees (fst (g x (snd (f h)))) (q y) (\<lambda>a b. Q a b (snd (g x (snd (f h)))))"
  shows "agrees (fst (bindS f g h)) (bind_err p q) (\<lambda>a b. Q a b (snd (bindS f g h)))"
proof (cases p)
  case (Inl e)
  with assms(1) show ?thesis by (cases "f h") (simp add: bindS_def)
next
  case (Inr y)
  with assms(1) obtain x where x: "fst (f h) = Inr x" "R x y (snd (f h))" by auto
  from assms(2) [OF x(2)] x(1) Inr show ?thesis
    by (cases "f h") (simp add: bindS_def)
qed

lemma for_loop_sim:
  assumes step: "\<And>k s t h. i \<le> k \<Longrightarrow> k < hi \<Longrightarrow> Inv s t h \<Longrightarrow>
      agrees (fst (bodyS k s h)) (body k t) (\<lambda>s' t'. Inv s' t' (snd (bodyS k s h)))"
    and inv: "Inv s t h"
  shows "agrees (fst (for_loopS i hi bodyS s h)) (for_loop i hi body t)
           (\<lambda>s' t'. Inv s' t' (snd (for_loopS i hi bodyS s h)))"
  using assms
proof (induction "hi - i" arbitrary: i s t h)
  case 0
  then show ?case by (simp add: for_loopS.simps [of i hi] for_loop.simps [of i hi])
next
  case (Suc d)
  then have lt: "i < hi" by simp
  note b = Suc.prems(1) [OF order_refl lt Suc.prems(2)]
  show ?case
  proof (cases "body i t")
    case (Inl e)
    with b lt show ?thesis
      by (cases "bodyS i s h") (simp add: for_loopS.simps [of i hi] for_loop.simps [of i hi])
  next
    case (Inr t')
    with b obtain s' where s': "fst (bodyS i s h) = Inr s'" "Inv s' t' (snd (bodyS i s h))"
      by auto
    from Suc.hyps(2) have d: "d = hi - Suc i" by simp
    have "agrees (fst (for_loopS (Suc i) hi bodyS s' (snd (bodyS i s h))))
            (for_loop (Suc i) hi body t')
            (\<lambda>a b. Inv a b (snd (for_loopS (Suc i) hi bodyS s' (snd (bodyS i s h)))))"
      by (rule Suc.hyps(1) [OF d _ s'(2)]) (rule Suc.prems(1), simp_all)
    with lt Inr s'(1) show ?thesis
      by (cases "bodyS i s h") (simp add: for_loopS.simps [of i hi] for_loop.simps [of i hi])
  qed
qed

lemma for_loopS_read:
  assumes "\<And>k s. bodyS k s h = (body k s, h)"
  shows "for_loopS i hi bodyS s h = (for_loop i hi body s, h)"
proof (induction "hi - i" arbitrary: i s)
  case 0
  then show ?case by (simp add: for_loopS.simps [of i hi] for_loop.simps [of i hi])
next
  case (Suc d)
  then have lt: "i < hi" by simp
  from Suc.hyps(2) have d: "d = hi - Suc i" by simp
  from Suc.hyps(1) [OF d] lt assms [of i s] show ?case
    by (cases "body i s") (simp_all add: for_loopS.simps [of i hi] for_loop.simps [of i hi])
qed

lemma pivotSearchS_holds:
  "holds n h m M \<Longrightarrow> pivotSearchS m col row mr h = (pivotSearch M col row mr, h)"
  by (cases "entry M row col"; cases "entry M mr col")
    (simp_all add: pivotSearchS_def pivotSearch_def bindS_def entryS_holds ret_def)

lemma lift_read: "lift r h = (r, h)"
  by (simp add: lift_def)

text \<open>The state of the loops over one row: the working matrix, with the snapshots intact.\<close>

lemma combineEntryS_sim:
  assumes "holds n h m M"
  shows "agrees (fst (combineEntryS m row p factor j u h)) (combineEntry row p factor j M)
           (\<lambda>u' M'. holds n (snd (combineEntryS m row p factor j u h)) m M' \<and>
              length (snd (combineEntryS m row p factor j u h)) = length h \<and>
              (\<forall>q. n \<le> q \<longrightarrow> snd (combineEntryS m row p factor j u h) ! q = h ! q))"
proof -
  note e = entryS_holds [OF assms]
  show ?thesis
  proof (cases "entry M p j")
    case (Inl err)
    then show ?thesis by (simp add: combineEntryS_def combineEntry_def bindS_def e)
  next
    case y: (Inr y)
    show ?thesis
    proof (cases "Fraction_multiply (Frac factor) (Frac y)")
      case (Inl err)
      with y show ?thesis
        by (simp add: combineEntryS_def combineEntry_def bindS_def e lift_def)
    next
      case pr: (Inr product)
      show ?thesis
      proof (cases "entry M row j")
        case (Inl err)
        with y pr show ?thesis
          by (simp add: combineEntryS_def combineEntry_def bindS_def e lift_def)
      next
        case x: (Inr x)
        then have row: "row < length M" by (simp add: entry_Inr_iff)
        show ?thesis
        proof (cases "Fraction_subtract (Frac x) (Frac product)")
          case (Inl err)
          with y pr x show ?thesis
            by (simp add: combineEntryS_def combineEntry_def bindS_def e lift_def)
        next
          case (Inr v)
          from putEntryS_holds [OF assms row, of j v] Inr y pr x show ?thesis
            by (auto simp: combineEntryS_def combineEntry_def bindS_def e lift_def)
        qed
      qed
    qed
  qed
qed

lemma scaleEntryS_sim:
  assumes "holds n h m M"
  shows "agrees (fst (scaleEntryS m r sf j u h)) (scaleEntry r sf j M)
           (\<lambda>u' M'. holds n (snd (scaleEntryS m r sf j u h)) m M' \<and>
              length (snd (scaleEntryS m r sf j u h)) = length h \<and>
              (\<forall>q. n \<le> q \<longrightarrow> snd (scaleEntryS m r sf j u h) ! q = h ! q))"
proof -
  note e = entryS_holds [OF assms]
  show ?thesis
  proof (cases "entry M r j")
    case (Inl err)
    then show ?thesis by (simp add: scaleEntryS_def scaleEntry_def bindS_def e)
  next
    case x: (Inr x)
    then have row: "r < length M" by (simp add: entry_Inr_iff)
    show ?thesis
    proof (cases "Fraction_multiply (Frac sf) (Frac x)")
      case (Inl err)
      with x show ?thesis
        by (simp add: scaleEntryS_def scaleEntry_def bindS_def e lift_def)
    next
      case (Inr v)
      from putEntryS_holds [OF assms row, of j v] Inr x show ?thesis
        by (auto simp: scaleEntryS_def scaleEntry_def bindS_def e lift_def)
    qed
  qed
qed

lemma row_loop_sim:
  fixes u :: unit
  assumes body: "\<And>k u M h. holds n h m M \<Longrightarrow>
      agrees (fst (bodyS k u h)) (body k M)
        (\<lambda>u' M'. holds n (snd (bodyS k u h)) m M' \<and> length (snd (bodyS k u h)) = length h \<and>
                  (\<forall>q. n \<le> q \<longrightarrow> snd (bodyS k u h) ! q = h ! q))"
    and "holds n h m M"
  shows "agrees (fst (for_loopS lo hi bodyS u h)) (for_loop lo hi body M)
           (\<lambda>u' M'. holds n (snd (for_loopS lo hi bodyS u h)) m M' \<and>
              length (snd (for_loopS lo hi bodyS u h)) = length h \<and>
              (\<forall>q. n \<le> q \<longrightarrow> snd (for_loopS lo hi bodyS u h) ! q = h ! q))"
proof -
  let ?Inv = "\<lambda>(u'::unit) M' h'. holds n h' m M' \<and> length h' = length h \<and>
      (\<forall>q. n \<le> q \<longrightarrow> h' ! q = h ! q)"
  have "agrees (fst (for_loopS lo hi bodyS u h)) (for_loop lo hi body M)
           (\<lambda>s' t'. ?Inv s' t' (snd (for_loopS lo hi bodyS u h)))"
  proof (rule for_loop_sim [where Inv = ?Inv])
    show "?Inv u M h" using assms(2) by simp
  next
    fix k s t h1
    assume inv: "?Inv s t h1"
    then have "holds n h1 m t" by simp
    from body [OF this, of k s] inv
    show "agrees (fst (bodyS k s h1)) (body k t) (\<lambda>s' t'. ?Inv s' t' (snd (bodyS k s h1)))"
      by (cases "body k t") auto
  qed
  then show ?thesis by simp
qed

lemma pushStepS_sim:
  assumes "holds n h m M" "traceOf n h stps T"
  shows "agrees (fst (pushStepS stps m opn desc h)) (pushStep T M opn desc)
           (\<lambda>stps' T'. holds n (snd (pushStepS stps m opn desc h)) m M \<and>
              traceOf n (snd (pushStepS stps m opn desc h)) stps' T')"
proof (cases "cloneFractionMatrix M")
  case (Inl e)
  with clone_sim [OF assms(1)] show ?thesis
    by (cases "cloneFractionMatrixS m h") (simp add: pushStepS_def pushStep_def bindS_def)
next
  case (Inr S)
  with clone_sim [OF assms(1)] obtain c ext where
    c: "cloneFractionMatrixS m h = (Inr c, h @ ext)" "snapshot n (h @ ext) c S" by auto
  from traceOf_snoc [OF traceOf_append [OF assms(2)] c(2)] holds_append [OF assms(1)] c(1) Inr
  show ?thesis
    by (simp add: pushStepS_def pushStep_def bindS_def ret_def)
qed

lemma loop_then_push:
  fixes u :: unit
  assumes body: "\<And>k u M h. holds n h m M \<Longrightarrow>
      agrees (fst (bodyS k u h)) (body k M)
        (\<lambda>u' M'. holds n (snd (bodyS k u h)) m M' \<and> length (snd (bodyS k u h)) = length h \<and>
                  (\<forall>q. n \<le> q \<longrightarrow> snd (bodyS k u h) ! q = h ! q))"
    and h: "holds n h m M" and t: "traceOf n h stps T"
  shows "agrees (fst (bindS (for_loopS lo hi bodyS u) (\<lambda>_. pushStepS stps m opn desc) h))
           (bind_err (for_loop lo hi body M) (\<lambda>m'.
              bind_err (pushStep T m' opn desc) (\<lambda>stps'. Inr (m', stps'))))
           (\<lambda>stps' (M', T').
              holds n (snd (bindS (for_loopS lo hi bodyS u) (\<lambda>_. pushStepS stps m opn desc) h)) m M' \<and>
              traceOf n (snd (bindS (for_loopS lo hi bodyS u) (\<lambda>_. pushStepS stps m opn desc) h))
                stps' T')"
proof -
  note l = row_loop_sim [of n m bodyS body h M lo hi u, OF body h]
  obtain r h1 where run: "for_loopS lo hi bodyS u h = (r, h1)"
    by (cases "for_loopS lo hi bodyS u h")
  show ?thesis
  proof (cases "for_loop lo hi body M")
    case (Inl e)
    with l run show ?thesis by (simp add: bindS_def)
  next
    case (Inr M1)
    with l run have 1: "r = Inr ()" "holds n h1 m M1" "length h1 = length h"
      "\<forall>q. n \<le> q \<longrightarrow> h1 ! q = h ! q" by auto
    from traceOf_same_above [OF t 1(3,4)] have t1: "traceOf n h1 stps T" .
    from pushStepS_sim [OF 1(2) t1, of opn desc] run 1(1) Inr show ?thesis
      by (cases "pushStep T M1 opn desc") (auto simp: bindS_def)
  qed
qed

lemma swapStepS_sim:
  assumes h: "holds n h m M" and t: "traceOf n h stps T"
    and r: "mr = i \<or> (mr < length M \<and> i < length M)"
  shows "agrees (fst (swapStepS m i mr stps h)) (swapStep i mr (M, T))
           (\<lambda>stps' (M', T'). holds n (snd (swapStepS m i mr stps h)) m M' \<and>
              traceOf n (snd (swapStepS m i mr stps h)) stps' T')"
proof (cases "mr = i")
  case True
  with h t show ?thesis by (simp add: swapStepS_def swapStep_def ret_def)
next
  case False
  with r have b: "i < length M" "mr < length M" by simp_all
  from swapRowsS_holds [OF h b] obtain h1 where
    1: "swapRowsS m i mr h = (Inr (), h1)" "holds n h1 m (swapRows M i mr)"
    "length h1 = length h" "\<forall>p. n \<le> p \<longrightarrow> h1 ! p = h ! p" by blast
  from traceOf_same_above [OF t 1(3,4)] have t1: "traceOf n h1 stps T" .
  let ?opn = "''R'' @ show_nat (i + 1) @ '' '' @ swapArrow @ '' R'' @ show_nat (mr + 1)"
  let ?desc = "''Swap row '' @ show_nat (i + 1) @ '' and row '' @ show_nat (mr + 1)
               @ '' (partial pivoting)''"
  from pushStepS_sim [OF 1(2) t1, of ?opn ?desc] 1(1) False show ?thesis
    by (cases "pushStep T (swapRows M i mr) ?opn ?desc")
      (auto simp: swapStepS_def swapStep_def bindS_def Let_def)
qed

lemma eliminateBelowS_sim:
  assumes h: "holds n h m M" and t: "traceOf n h stps T"
  shows "agrees (fst (eliminateBelowS m cols col row stps h)) (eliminateBelow cols col row (M, T))
           (\<lambda>stps' (M', T'). holds n (snd (eliminateBelowS m cols col row stps h)) m M' \<and>
              traceOf n (snd (eliminateBelowS m cols col row stps h)) stps' T')"
proof -
  note e = entryS_holds [OF h]
  show ?thesis
  proof (cases "entry M row col")
    case (Inl err)
    then show ?thesis by (simp add: eliminateBelowS_def eliminateBelow_def bindS_def e)
  next
    case x: (Inr x)
    show ?thesis
    proof (cases "isNearZero x")
      case True
      with x h t show ?thesis
        by (simp add: eliminateBelowS_def eliminateBelow_def bindS_def e ret_def)
    next
      case nz: False
      show ?thesis
      proof (cases "entry M col col")
        case (Inl err)
        with x nz show ?thesis
          by (simp add: eliminateBelowS_def eliminateBelow_def bindS_def e)
      next
        case pv: (Inr pv)
        show ?thesis
        proof (cases "Fraction_divide (Frac x) (Frac pv)")
          case (Inl err)
          with x nz pv show ?thesis
            by (simp add: eliminateBelowS_def eliminateBelow_def bindS_def e lift_def)
        next
          case (Inr factor)
          from loop_then_push [of n m "combineEntryS m row col factor"
              "combineEntry row col factor", OF combineEntryS_sim h t]
            x nz pv Inr
          show ?thesis
            by (simp add: eliminateBelowS_def eliminateBelow_def bindS_def [of "entryS _ _ _"]
                bindS_def [of "lift _"] e lift_def formatFraction_Frac)
        qed
      qed
    qed
  qed
qed

lemma steps_loop_sim:
  assumes body: "\<And>k stps M T h. holds n h m M \<Longrightarrow> traceOf n h stps T \<Longrightarrow>
      agrees (fst (bodyS k stps h)) (body k (M, T))
        (\<lambda>stps' (M', T'). holds n (snd (bodyS k stps h)) m M' \<and>
                            traceOf n (snd (bodyS k stps h)) stps' T')"
    and h: "holds n h m M" and t: "traceOf n h stps T"
  shows "agrees (fst (for_loopS lo hi bodyS stps h)) (for_loop lo hi body (M, T))
           (\<lambda>stps' (M', T'). holds n (snd (for_loopS lo hi bodyS stps h)) m M' \<and>
              traceOf n (snd (for_loopS lo hi bodyS stps h)) stps' T')"
proof -
  let ?Inv = "\<lambda>stps' MT h'. holds n h' m (fst MT) \<and> traceOf n h' stps' (snd MT)"
  have "agrees (fst (for_loopS lo hi bodyS stps h)) (for_loop lo hi body (M, T))
           (\<lambda>s' t'. ?Inv s' t' (snd (for_loopS lo hi bodyS stps h)))"
  proof (rule for_loop_sim [where Inv = ?Inv])
    show "?Inv stps (M, T) h" using h t by simp
  next
    fix k s t' h1
    assume inv: "?Inv s t' h1"
    from body [of h1 "fst t'" s "snd t'" k] inv
    show "agrees (fst (bodyS k s h1)) (body k t') (\<lambda>s' t''. ?Inv s' t'' (snd (bodyS k s h1)))"
      by (cases "body k t'") (auto simp: case_prod_beta)
  qed
  then show ?thesis
    by (cases "for_loop lo hi body (M, T)") (auto simp: case_prod_beta)
qed

lemma pivot_loop_read:
  assumes "holds n h m M"
  shows "for_loopS lo rows (pivotSearchS m col) s h = (for_loop lo rows (pivotSearch M col) s, h)"
  by (rule for_loopS_read) (rule pivotSearchS_holds [OF assms])

lemma gaussColumnS_sim:
  assumes h: "holds n h m M" and t: "traceOf n h stps T"
  shows "agrees (fst (gaussColumnS m rows cols col stps h)) (gaussColumn rows cols col (M, T))
           (\<lambda>stps' (M', T'). holds n (snd (gaussColumnS m rows cols col stps h)) m M' \<and>
              traceOf n (snd (gaussColumnS m rows cols col stps h)) stps' T')"
proof -
  note p = pivot_loop_read [OF h, of "col + 1" rows col col]
  show ?thesis
  proof (cases "for_loop (col + 1) rows (pivotSearch M col) col")
    case (Inl e)
    with p show ?thesis by (simp add: gaussColumnS_def gaussColumn_def bindS_def)
  next
    case mr: (Inr mr)
    from pivot_search_result [of col rows M col mr] mr
    have range: "mr = col \<or> (mr < length M \<and> col < length M)" by auto
    note sw = swapStepS_sim [OF h t range]
    obtain r1 h1 where run1: "swapStepS m col mr stps h = (r1, h1)"
      by (cases "swapStepS m col mr stps h")
    show ?thesis
    proof (cases "swapStep col mr (M, T)")
      case (Inl e)
      with sw run1 p mr show ?thesis
        by (simp add: gaussColumnS_def gaussColumn_def bindS_def)
    next
      case (Inr MT1)
      obtain M1 T1 where MT1: "MT1 = (M1, T1)" by (cases MT1)
      with sw run1 Inr obtain stps1 where 1: "r1 = Inr stps1" "holds n h1 m M1"
        "traceOf n h1 stps1 T1" by auto
      note e = entryS_holds [OF 1(2)]
      show ?thesis
      proof (cases "entry M1 col col")
        case (Inl e')
        with p mr run1 1 Inr MT1 e show ?thesis
          by (simp add: gaussColumnS_def gaussColumn_def bindS_def)
      next
        case pv: (Inr pv)
        show ?thesis
        proof (cases "isNearZero pv")
          case True
          with p mr run1 1 Inr MT1 e pv show ?thesis
            by (simp add: gaussColumnS_def gaussColumn_def bindS_def ret_def)
        next
          case False
          from steps_loop_sim [of n m "eliminateBelowS m cols col" "eliminateBelow cols col",
              OF eliminateBelowS_sim 1(2,3), of "col + 1" rows]
            p mr run1 1 Inr MT1 e pv False
          show ?thesis
            by (simp add: gaussColumnS_def gaussColumn_def bindS_def)
        qed
      qed
    qed
  qed
qed

lemma scalePivotRowS_sim:
  assumes h: "holds n h m M" and t: "traceOf n h stps T"
  shows "agrees (fst (scalePivotRowS m cols col cr stps h)) (scalePivotRow cols col cr (M, T))
           (\<lambda>stps' (M', T'). holds n (snd (scalePivotRowS m cols col cr stps h)) m M' \<and>
              traceOf n (snd (scalePivotRowS m cols col cr stps h)) stps' T')"
proof -
  note e = entryS_holds [OF h]
  show ?thesis
  proof (cases "entry M cr col")
    case (Inl err)
    then show ?thesis by (simp add: scalePivotRowS_def scalePivotRow_def bindS_def e)
  next
    case pv: (Inr pv)
    show ?thesis
    proof (cases "pv = \<lparr>numerator = 1, denominator = 1\<rparr>")
      case True
      with pv h t show ?thesis
        by (simp add: scalePivotRowS_def scalePivotRow_def bindS_def e lift_def ret_def
            Fraction_new_one equals_one)
    next
      case ne: False
      show ?thesis
      proof (cases "Fraction_divide (Num 1) (Frac pv)")
        case (Inl err)
        with pv ne show ?thesis
          by (simp add: scalePivotRowS_def scalePivotRow_def bindS_def e lift_def
              Fraction_new_one equals_one)
      next
        case (Inr sf)
        from loop_then_push [of n m "scaleEntryS m cr sf" "scaleEntry cr sf",
            OF scaleEntryS_sim h t]
          pv ne Inr
        show ?thesis
          by (simp add: scalePivotRowS_def scalePivotRow_def bindS_def [of "entryS _ _ _"]
              bindS_def [of "lift _"] e lift_def formatFraction_Frac Fraction_new_one equals_one)
      qed
    qed
  qed
qed

lemma eliminateOtherS_sim:
  assumes h: "holds n h m M" and t: "traceOf n h stps T"
  shows "agrees (fst (eliminateOtherS m cols col cr row stps h))
           (eliminateOther cols col cr row (M, T))
           (\<lambda>stps' (M', T'). holds n (snd (eliminateOtherS m cols col cr row stps h)) m M' \<and>
              traceOf n (snd (eliminateOtherS m cols col cr row stps h)) stps' T')"
proof (cases "row = cr")
  case True
  with h t show ?thesis by (simp add: eliminateOtherS_def eliminateOther_def ret_def)
next
  case rc: False
  note e = entryS_holds [OF h]
  show ?thesis
  proof (cases "entry M row col")
    case (Inl err)
    with rc show ?thesis by (simp add: eliminateOtherS_def eliminateOther_def bindS_def e)
  next
    case x: (Inr x)
    show ?thesis
    proof (cases "isNearZero x")
      case True
      with x h t rc show ?thesis
        by (simp add: eliminateOtherS_def eliminateOther_def bindS_def e ret_def)
    next
      case False
      from loop_then_push [of n m "combineEntryS m row cr x" "combineEntry row cr x",
          OF combineEntryS_sim h t]
        x False rc
      show ?thesis
        by (simp add: eliminateOtherS_def eliminateOther_def bindS_def [of "entryS _ _ _"]
            bindS_def [of "lift _"] e lift_def formatFraction_Frac)
    qed
  qed
qed

lemma jordanColumnS_sim:
  assumes h: "holds n h m M" and t: "traceOf n h stps T"
  shows "agrees (fst (jordanColumnS m rows cols col (cr, stps) h))
           (jordanColumn rows cols col (cr, M, T))
           (\<lambda>st' pt'. fst st' = fst pt' \<and>
              holds n (snd (jordanColumnS m rows cols col (cr, stps) h)) m (fst (snd pt')) \<and>
              traceOf n (snd (jordanColumnS m rows cols col (cr, stps) h)) (snd st') (snd (snd pt')))"
proof -
  note p = pivot_loop_read [OF h, of "cr + 1" rows col cr]
  show ?thesis
  proof (cases "for_loop (cr + 1) rows (pivotSearch M col) cr")
    case (Inl e)
    with p show ?thesis by (simp add: jordanColumnS_def jordanColumn_def bindS_def)
  next
    case mr: (Inr mr)
    from pivot_search_result [of cr rows M col mr] mr
    have range: "mr = cr \<or> (mr < length M \<and> cr < length M)" by auto
    note sw = swapStepS_sim [OF h t range]
    obtain r1 h1 where run1: "swapStepS m cr mr stps h = (r1, h1)"
      by (cases "swapStepS m cr mr stps h")
    show ?thesis
    proof (cases "swapStep cr mr (M, T)")
      case (Inl e)
      with sw run1 p mr show ?thesis
        by (simp add: jordanColumnS_def jordanColumn_def bindS_def)
    next
      case (Inr MT1)
      obtain M1 T1 where MT1: "MT1 = (M1, T1)" by (cases MT1)
      with sw run1 Inr obtain stps1 where 1: "r1 = Inr stps1" "holds n h1 m M1"
        "traceOf n h1 stps1 T1" by auto
      note e = entryS_holds [OF 1(2)]
      show ?thesis
      proof (cases "entry M1 cr col")
        case (Inl e')
        with p mr run1 1 Inr MT1 e show ?thesis
          by (simp add: jordanColumnS_def jordanColumn_def bindS_def)
      next
        case pv: (Inr pv)
        show ?thesis
        proof (cases "isNearZero pv")
          case True
          with p mr run1 1 Inr MT1 e pv show ?thesis
            by (simp add: jordanColumnS_def jordanColumn_def bindS_def ret_def)
        next
          case nz: False
          note sc = scalePivotRowS_sim [OF 1(2,3), of cols col cr]
          obtain r2 h2 where run2: "scalePivotRowS m cols col cr stps1 h1 = (r2, h2)"
            by (cases "scalePivotRowS m cols col cr stps1 h1")
          show ?thesis
          proof (cases "scalePivotRow cols col cr (M1, T1)")
            case (Inl e')
            with sc run2 p mr run1 1 Inr MT1 e pv nz show ?thesis
              by (simp add: jordanColumnS_def jordanColumn_def bindS_def)
          next
            case s2: (Inr MT2)
            obtain M2 T2 where MT2: "MT2 = (M2, T2)" by (cases MT2)
            with sc run2 s2 obtain stps2 where 2: "r2 = Inr stps2" "holds n h2 m M2"
              "traceOf n h2 stps2 T2" by auto
            note ol = steps_loop_sim [of n m "eliminateOtherS m cols col cr"
                "eliminateOther cols col cr", OF eliminateOtherS_sim 2(2,3), of 0 rows]
            obtain r3 h3 where run3:
              "for_loopS 0 rows (eliminateOtherS m cols col cr) stps2 h2 = (r3, h3)"
              by (cases "for_loopS 0 rows (eliminateOtherS m cols col cr) stps2 h2")
            show ?thesis
            proof (cases "for_loop 0 rows (eliminateOther cols col cr) (M2, T2)")
              case (Inl e')
              with ol run3 run2 2 s2 MT2 p mr run1 1 Inr MT1 e pv nz show ?thesis
                by (simp add: jordanColumnS_def jordanColumn_def bindS_def)
            next
              case s3: (Inr MT3)
              with ol run3 run2 2 s2 MT2 p mr run1 1 Inr MT1 e pv nz show ?thesis
                by (auto simp: jordanColumnS_def jordanColumn_def bindS_def ret_def
                    case_prod_beta)
            qed
          qed
        qed
      qed
    qed
  qed
qed

lemma jordanLoopS_sim:
  assumes "holds n h m M" "traceOf n h stps T"
  shows "agrees (fst (jordanLoopS m rows cols col (cr, stps) h))
           (jordanLoop rows cols col (cr, M, T))
           (\<lambda>st' pt'. fst st' = fst pt' \<and>
              holds n (snd (jordanLoopS m rows cols col (cr, stps) h)) m (fst (snd pt')) \<and>
              traceOf n (snd (jordanLoopS m rows cols col (cr, stps) h)) (snd st') (snd (snd pt')))"
  using assms
proof (induction "columnBound rows cols - col" arbitrary: col cr stps M T h)
  case 0
  then show ?case
    by (simp add: jordanLoopS.simps [of m rows cols col] jordanLoop.simps [of rows cols col])
next
  case (Suc d)
  then have lt: "col < columnBound rows cols" by simp
  show ?case
  proof (cases "rows \<le> cr")
    case True
    with lt Suc.prems show ?thesis
      by (simp add: jordanLoopS.simps [of m rows cols col] jordanLoop.simps [of rows cols col])
  next
    case False
    note b = jordanColumnS_sim [OF Suc.prems, of rows cols col cr]
    obtain r1 h1 where run1: "jordanColumnS m rows cols col (cr, stps) h = (r1, h1)"
      by (cases "jordanColumnS m rows cols col (cr, stps) h")
    show ?thesis
    proof (cases "jordanColumn rows cols col (cr, M, T)")
      case (Inl e)
      with b run1 lt False show ?thesis
        by (simp add: jordanLoopS.simps [of m rows cols col] jordanLoop.simps [of rows cols col])
    next
      case (Inr pt1)
      obtain cr1 M1 T1 where pt1: "pt1 = (cr1, M1, T1)" by (cases pt1) auto
      with b run1 Inr obtain stps1 where 1: "r1 = Inr (cr1, stps1)" "holds n h1 m M1"
        "traceOf n h1 stps1 T1" by (auto simp: fst_def snd_def split: prod.splits)
      from Suc.hyps(2) have d: "d = columnBound rows cols - Suc col" by simp
      from Suc.hyps(1) [OF d 1(2,3), of cr1] run1 1(1) Inr pt1 lt False show ?thesis
        by (simp add: jordanLoopS.simps [of m rows cols col] jordanLoop.simps [of rows cols col])
    qed
  qed
qed

lemma dimensionsS_holds:
  assumes "holds n h m M"
  shows "dimensionsS m h = (bind_err (firstRowLength M) (\<lambda>cols. Inr (length M, cols)), h)"
proof -
  from holds_D [OF assms] obtain rs where rs: "m < length h" "h ! m = Rows rs"
    "length rs = length M"
    "\<forall>i<length M. rs ! i < length h \<and> h ! (rs ! i) = Row (map Frac (M ! i))"
    by blast
  then have r: "rowsAt m h = (Inr rs, h)" by (simp add: rowsAt_def)
  show ?thesis
  proof (cases M)
    case Nil
    with rs r show ?thesis
      by (simp add: dimensionsS_def bindS_def throw_def firstRowLength_def)
  next
    case (Cons row rest)
    with rs(3) obtain r0 rs' where rs': "rs = r0 # rs'" by (cases rs) auto
    from rs(4) Cons rs' have "r0 < length h \<and> h ! r0 = Row (map Frac row)"
      by (auto dest: spec [of _ 0])
    then have "rowAt r0 h = (Inr (map Frac row), h)" by (simp add: rowAt_def)
    with r rs' Cons rs(3) show ?thesis
      by (simp add: dimensionsS_def bindS_def ret_def firstRowLength_def)
  qed
qed

lemma those_rows_Some_map: "those_rows (map (Some \<circ> f) xs) = Some (map f xs)"
  by (induction xs) simp_all

lemma holds_readMatrix:
  assumes "holds n h m M"
  shows "readMatrix h m = Some (map (map Frac) M)"
proof -
  from holds_D [OF assms] obtain rs where rs: "m < length h" "h ! m = Rows rs"
    "length rs = length M"
    "\<forall>i<length M. rs ! i < length h \<and> h ! (rs ! i) = Row (map Frac (M ! i))"
    by blast
  have "map (readRow h) rs = map Some (map (map Frac) M)"
    using rs(3,4) by (intro nth_equalityI) (simp_all add: readRow_def)
  with rs(1,2) show ?thesis
    by (simp add: readMatrix_def those_rows_Some_map)
qed

lemma snapshot_readMatrix:
  assumes "snapshot n h c S"
  shows "readMatrix h c = Some (map (map Frac) S)"
proof -
  from assms obtain rs where rs: "c < length h" "h ! c = Rows rs" "length rs = length S"
    "\<forall>i<length S. rs ! i < length h \<and> h ! (rs ! i) = Row (map Frac (S ! i))"
    unfolding snapshot_def by blast
  have "map (readRow h) rs = map Some (map (map Frac) S)"
    using rs(3,4) by (intro nth_equalityI) (simp_all add: readRow_def)
  with rs(1,2) show ?thesis
    by (simp add: readMatrix_def those_rows_Some_map)
qed

lemma traceOf_readMatrix:
  "traceOf n h stps T \<Longrightarrow>
     list_all2 (\<lambda>(c, opn, desc) s. readMatrix h c = Some (map (map Frac) (matrix s)) \<and>
        opn = operation s \<and> desc = description s) stps T"
  unfolding traceOf_def
  by (erule list_all2_mono) (auto dest: snapshot_readMatrix)

lemma gaussianS_sim:
  assumes "readMatrix h a = Some A"
  shows "agrees (fst (gaussianEliminationWithFractionsS a h))
           (gaussianEliminationWithFractions A)
           (\<lambda>out res. \<exists>n. holds n (snd (gaussianEliminationWithFractionsS a h)) (fst out) (result res) \<and>
              traceOf n (snd (gaussianEliminationWithFractionsS a h)) (snd out) (steps res))"
proof (cases "mapE (mapE toFraction) A")
  case (Inl e)
  with convert_sim [OF assms] show ?thesis
    by (cases "convertS a h")
      (simp add: gaussianEliminationWithFractionsS_def gaussianEliminationWithFractions_def
        bindS_def)
next
  case (Inr M)
  with convert_sim [OF assms] obtain m h1 where
    c: "convertS a h = (Inr m, h1)" "holds (length h1) h1 m M" by auto
  let ?n = "length h1"
  note d = dimensionsS_holds [OF c(2)]
  show ?thesis
  proof (cases "firstRowLength M")
    case (Inl e)
    with Inr c d show ?thesis
      by (simp add: gaussianEliminationWithFractionsS_def gaussianEliminationWithFractions_def
          bindS_def)
  next
    case cols: (Inr cols)
    have t0: "traceOf ?n h1 [] []" by (simp add: traceOf_def)
    let ?opn = "''Initial''" and ?desc = "''Starting augmented matrix [A|b]''"
    note ps = pushStepS_sim [OF c(2) t0, of ?opn ?desc]
    obtain r2 h2 where run2: "pushStepS [] m ?opn ?desc h1 = (r2, h2)"
      by (cases "pushStepS [] m ?opn ?desc h1")
    show ?thesis
    proof (cases "pushStep [] M ?opn ?desc")
      case (Inl e)
      with ps run2 Inr c d cols show ?thesis
        by (simp add: gaussianEliminationWithFractionsS_def gaussianEliminationWithFractions_def
            bindS_def)
    next
      case p: (Inr T1)
      with ps run2 obtain stps1 where 2: "r2 = Inr stps1" "holds ?n h2 m M"
        "traceOf ?n h2 stps1 T1" by auto
      note lp = steps_loop_sim [of ?n m "gaussColumnS m (length M) cols"
          "gaussColumn (length M) cols", OF gaussColumnS_sim 2(2,3),
          of 0 "columnBound (length M) cols"]
      obtain r3 h3 where run3: "for_loopS 0 (columnBound (length M) cols)
          (gaussColumnS m (length M) cols) stps1 h2 = (r3, h3)"
        by (cases "for_loopS 0 (columnBound (length M) cols)
          (gaussColumnS m (length M) cols) stps1 h2")
      show ?thesis
      proof (cases "for_loop 0 (columnBound (length M) cols) (gaussColumn (length M) cols) (M, T1)")
        case (Inl e)
        with lp run3 p run2 2 Inr c d cols show ?thesis
          by (simp add: gaussianEliminationWithFractionsS_def
              gaussianEliminationWithFractions_def bindS_def)
      next
        case (Inr MT)
        with lp run3 p run2 2 \<open>mapE (mapE toFraction) A = Inr M\<close> c d cols show ?thesis
          by (auto simp: gaussianEliminationWithFractionsS_def
              gaussianEliminationWithFractions_def bindS_def ret_def)
      qed
    qed
  qed
qed

lemma jordanS_sim:
  assumes "readMatrix h a = Some A"
  shows "agrees (fst (gaussJordanWithFractionsS a h))
           (gaussJordanWithFractions A)
           (\<lambda>out res. \<exists>n. holds n (snd (gaussJordanWithFractionsS a h)) (fst out) (result res) \<and>
              traceOf n (snd (gaussJordanWithFractionsS a h)) (snd out) (steps res))"
proof (cases "mapE (mapE toFraction) A")
  case (Inl e)
  with convert_sim [OF assms] show ?thesis
    by (cases "convertS a h")
      (simp add: gaussJordanWithFractionsS_def gaussJordanWithFractions_def bindS_def)
next
  case (Inr M)
  with convert_sim [OF assms] obtain m h1 where
    c: "convertS a h = (Inr m, h1)" "holds (length h1) h1 m M" by auto
  let ?n = "length h1"
  note d = dimensionsS_holds [OF c(2)]
  show ?thesis
  proof (cases "firstRowLength M")
    case (Inl e)
    with Inr c d show ?thesis
      by (simp add: gaussJordanWithFractionsS_def gaussJordanWithFractions_def bindS_def)
  next
    case cols: (Inr cols)
    have t0: "traceOf ?n h1 [] []" by (simp add: traceOf_def)
    let ?opn = "''Initial''" and ?desc = "''Starting augmented matrix [A|b]''"
    note ps = pushStepS_sim [OF c(2) t0, of ?opn ?desc]
    obtain r2 h2 where run2: "pushStepS [] m ?opn ?desc h1 = (r2, h2)"
      by (cases "pushStepS [] m ?opn ?desc h1")
    show ?thesis
    proof (cases "pushStep [] M ?opn ?desc")
      case (Inl e)
      with ps run2 Inr c d cols show ?thesis
        by (simp add: gaussJordanWithFractionsS_def gaussJordanWithFractions_def bindS_def)
    next
      case p: (Inr T1)
      with ps run2 obtain stps1 where 2: "r2 = Inr stps1" "holds ?n h2 m M"
        "traceOf ?n h2 stps1 T1" by auto
      note lp = jordanLoopS_sim [OF 2(2,3), of "length M" cols 0 0]
      obtain r3 h3 where run3: "jordanLoopS m (length M) cols 0 (0, stps1) h2 = (r3, h3)"
        by (cases "jordanLoopS m (length M) cols 0 (0, stps1) h2")
      show ?thesis
      proof (cases "jordanLoop (length M) cols 0 (0, M, T1)")
        case (Inl e)
        with lp run3 p run2 2 Inr c d cols show ?thesis
          by (simp add: gaussJordanWithFractionsS_def gaussJordanWithFractions_def bindS_def)
      next
        case (Inr MT)
        with lp run3 p run2 2 \<open>mapE (mapE toFraction) A = Inr M\<close> c d cols show ?thesis
          by (auto simp: gaussJordanWithFractionsS_def gaussJordanWithFractions_def
              bindS_def ret_def case_prod_beta)
      qed
    qed
  qed
qed

theorem gaussian_store_refines:
  assumes "readMatrix h a = Some A"
  shows "agrees (fst (gaussianEliminationWithFractionsS a h))
           (gaussianEliminationWithFractions A)
           (\<lambda>out res.
              readMatrix (snd (gaussianEliminationWithFractionsS a h)) (fst out)
                = Some (map (map Frac) (result res)) \<and>
              list_all2 (\<lambda>(c, opn, desc) s.
                  readMatrix (snd (gaussianEliminationWithFractionsS a h)) c
                    = Some (map (map Frac) (matrix s)) \<and>
                  opn = operation s \<and> desc = description s) (snd out) (steps res))"
  using gaussianS_sim [OF assms]
  by (auto simp: agrees_def split: sum.splits
      dest: holds_readMatrix traceOf_readMatrix)

theorem jordan_store_refines:
  assumes "readMatrix h a = Some A"
  shows "agrees (fst (gaussJordanWithFractionsS a h))
           (gaussJordanWithFractions A)
           (\<lambda>out res.
              readMatrix (snd (gaussJordanWithFractionsS a h)) (fst out)
                = Some (map (map Frac) (result res)) \<and>
              list_all2 (\<lambda>(c, opn, desc) s.
                  readMatrix (snd (gaussJordanWithFractionsS a h)) c
                    = Some (map (map Frac) (matrix s)) \<and>
                  opn = operation s \<and> desc = description s) (snd out) (steps res))"
  using jordanS_sim [OF assms]
  by (auto simp: agrees_def split: sum.splits
      dest: holds_readMatrix traceOf_readMatrix)


end
